theory Spec2Isabelle
  imports Main "HOL-Library.AList" "HOL-Library.Multiset"
begin

section \<open>Naive local time\<close>

text \<open>
  The bot works with naive \<^verbatim>\<open>datetime\<close> values only. A naive datetime is a point on one
  linear time line with microsecond resolution, from 0001-01-01T00:00:00 up to
  9999-12-31T23:59:59.999999. It is modelled by the number of microseconds since
  0001-01-01T00:00:00; a \<^verbatim>\<open>timedelta\<close> is a signed number of microseconds. Comparison of
  datetimes is comparison of these numbers, and \<^verbatim>\<open>datetime - datetime\<close> is their
  difference. \<^verbatim>\<open>datetime + timedelta\<close> raises \<^verbatim>\<open>OverflowError\<close> when the result leaves
  the representable range.
\<close>

type_synonym datetime = int
type_synonym timedelta = int
type_synonym date = int \<comment> \<open>proleptic Gregorian ordinal, 0001-01-01 is day 1\<close>
type_synonym time_of_day = int \<comment> \<open>microseconds since midnight\<close>

text \<open>
  An operation that may raise returns the exception or its value. The last value of
  \<open>error\<close> is no exception of the program: \<open>Unmodelled\<close> marks an input on which the
  model does not say what the program does, because the program goes on with a value the
  types of the model cannot hold. A statement that the program raises a given exception
  excludes it.
\<close>

datatype error =
    OverflowError
  | KeyError string
  | TypeError
  | ValueError
  | JSONDecodeError
  | AttributeError
  | OSError
  | Unmodelled

type_synonym 'a result = "error + 'a"

definition US_PER_SECOND :: int where
  "US_PER_SECOND = 1000000"

definition US_PER_DAY :: int where
  "US_PER_DAY = 86400000000"

definition MAXORDINAL :: int where
  "MAXORDINAL = 3652059"

definition valid_datetime :: "datetime \<Rightarrow> bool" where
  "valid_datetime t = (0 \<le> t \<and> t < MAXORDINAL * US_PER_DAY)"

definition td_days :: "int \<Rightarrow> timedelta" where
  "td_days n = n * US_PER_DAY"

definition td_hours :: "int \<Rightarrow> timedelta" where
  "td_hours n = n * 3600 * US_PER_SECOND"

definition td_minutes :: "int \<Rightarrow> timedelta" where
  "td_minutes n = n * 60 * US_PER_SECOND"

definition td_seconds :: "int \<Rightarrow> timedelta" where
  "td_seconds n = n * US_PER_SECOND"

definition time_hm :: "int \<Rightarrow> int \<Rightarrow> time_of_day" where
  "time_hm h m = (h * 3600 + m * 60) * US_PER_SECOND"

text \<open>\<^verbatim>\<open>int(delta.total_seconds())\<close>: whole seconds, rounded towards zero.\<close>

definition total_seconds_int :: "timedelta \<Rightarrow> int" where
  "total_seconds_int d =
     (if 0 \<le> d then d div US_PER_SECOND else - ((- d) div US_PER_SECOND))"

subsection \<open>Seconds as floating-point numbers\<close>

text \<open>
  The job queue takes a delay as a \<^verbatim>\<open>float\<close> number of seconds. A double is kept as its
  integer mantissa and binary exponent and stands for \<open>mantissa * 2 ^ exponent\<close>.
  \<^verbatim>\<open>delta.total_seconds()\<close> is the quotient of the microseconds by \<open>10 ^ 6\<close>, rounded to the
  nearest double, ties to even. \<^verbatim>\<open>timedelta(seconds=f)\<close>, with which the queue turns the delay
  into a \<^verbatim>\<open>timedelta\<close> again, takes the whole seconds of \<open>f\<close> exactly, multiplies the
  fraction by \<open>10 ^ 6\<close> in floating point and rounds that product to whole microseconds,
  ties to even. The magnitudes that occur are far from the subnormal and the infinite
  doubles, which are left out.
\<close>

type_synonym double = "int \<times> int"

fun bit_length :: "nat \<Rightarrow> nat" where
  "bit_length n = (if n = 0 then 0 else Suc (bit_length (n div 2)))"

declare bit_length.simps [simp del]

definition round_half_even :: "int \<Rightarrow> int \<Rightarrow> int" where
  "round_half_even n d =
     (let q = n div d; r = n mod d
      in if 2 * r < d then q else if d < 2 * r then q + 1 else if even q then q else q + 1)"

definition scale2 :: "int \<Rightarrow> int \<Rightarrow> int \<Rightarrow> int \<times> int" where
  "scale2 n d s = (if 0 \<le> s then (n * 2 ^ nat s, d) else (n, d * 2 ^ nat (- s)))"

text \<open>
  The double nearest to \<open>n / d\<close> for positive \<open>n\<close> and \<open>d\<close>: the quotient is scaled by a
  power of two that brings it between \<open>2 ^ 52\<close> and \<open>2 ^ 53\<close>, and rounded there.
\<close>

definition double_of_ratio :: "int \<Rightarrow> int \<Rightarrow> double" where
  "double_of_ratio n d =
     (if n = 0 then (0, 0)
      else
        (let s0 = 53 + int (bit_length (nat d)) - int (bit_length (nat n));
             s = (case scale2 n d s0 of (a, b) \<Rightarrow> if 2 ^ 53 \<le> a div b then s0 - 1 else s0)
         in case scale2 n d s of (a, b) \<Rightarrow> (round_half_even a b, - s)))"

definition total_seconds :: "timedelta \<Rightarrow> double" where
  "total_seconds delta =
     (if 0 \<le> delta then double_of_ratio delta US_PER_SECOND
      else case double_of_ratio (- delta) US_PER_SECOND of (m, e) \<Rightarrow> (- m, e))"

definition nonneg_seconds :: "int \<Rightarrow> int \<Rightarrow> timedelta" where
  "nonneg_seconds m e =
     (if 0 \<le> e then m * 2 ^ nat e * US_PER_SECOND
      else
        (let k = 2 ^ nat (- e); whole = m div k; frac = m mod k
         in if frac = 0 then whole * US_PER_SECOND
            else case double_of_ratio (frac * US_PER_SECOND) k of
                   (pm, pe) \<Rightarrow>
                     whole * US_PER_SECOND
                       + (if 0 \<le> pe then pm * 2 ^ nat pe
                          else round_half_even pm (2 ^ nat (- pe)))))"

definition timedelta_seconds :: "double \<Rightarrow> timedelta" where
  "timedelta_seconds f =
     (case f of (m, e) \<Rightarrow> if m < 0 then - nonneg_seconds (- m) e else nonneg_seconds m e)"

definition dt_add :: "datetime \<Rightarrow> timedelta \<Rightarrow> datetime result" where
  "dt_add t d = (if valid_datetime (t + d) then Inr (t + d) else Inl OverflowError)"

definition dt_sub :: "datetime \<Rightarrow> timedelta \<Rightarrow> datetime result" where
  "dt_sub t d = dt_add t (- d)"

definition date_of :: "datetime \<Rightarrow> date" where
  "date_of t = t div US_PER_DAY + 1"

definition time_of :: "datetime \<Rightarrow> time_of_day" where
  "time_of t = t mod US_PER_DAY"

definition combine :: "date \<Rightarrow> time_of_day \<Rightarrow> datetime" where
  "combine d tm = (d - 1) * US_PER_DAY + tm"

subsection \<open>The proleptic Gregorian calendar\<close>

definition is_leap :: "int \<Rightarrow> bool" where
  "is_leap year = (year mod 4 = 0 \<and> (year mod 100 \<noteq> 0 \<or> year mod 400 = 0))"

definition days_before_year :: "int \<Rightarrow> int" where
  "days_before_year year =
     (let y = year - 1 in y * 365 + y div 4 - y div 100 + y div 400)"

definition days_in_month :: "int \<Rightarrow> int \<Rightarrow> int" where
  "days_in_month year month =
     (if month = 2 then (if is_leap year then 29 else 28)
      else if month = 4 \<or> month = 6 \<or> month = 9 \<or> month = 11 then 30
      else 31)"

definition days_before_month_tab :: "int \<Rightarrow> int" where
  "days_before_month_tab month =
     (if month = 1 then 0 else if month = 2 then 31 else if month = 3 then 59
      else if month = 4 then 90 else if month = 5 then 120 else if month = 6 then 151
      else if month = 7 then 181 else if month = 8 then 212 else if month = 9 then 243
      else if month = 10 then 273 else if month = 11 then 304 else 334)"

definition days_before_month :: "int \<Rightarrow> int \<Rightarrow> int" where
  "days_before_month year month =
     days_before_month_tab month + (if month > 2 \<and> is_leap year then 1 else 0)"

definition ymd2ord :: "int \<Rightarrow> int \<Rightarrow> int \<Rightarrow> date" where
  "ymd2ord year month day = days_before_year year + days_before_month year month + day"

definition valid_ymd :: "int \<Rightarrow> int \<Rightarrow> int \<Rightarrow> bool" where
  "valid_ymd year month day =
     (1 \<le> year \<and> year \<le> 9999 \<and> 1 \<le> month \<and> month \<le> 12 \<and>
      1 \<le> day \<and> day \<le> days_in_month year month)"

text \<open>
  \<^verbatim>\<open>datetime(year, month, day, hour, minute, second, microsecond)\<close>; the constructor
  raises \<^verbatim>\<open>ValueError\<close> on a field out of range.
\<close>

definition mk_datetime ::
  "int \<Rightarrow> int \<Rightarrow> int \<Rightarrow> int \<Rightarrow> int \<Rightarrow> int \<Rightarrow> int \<Rightarrow> datetime result" where
  "mk_datetime year month day hour minute second us =
     (if valid_ymd year month day \<and> 0 \<le> hour \<and> hour < 24 \<and> 0 \<le> minute \<and> minute < 60 \<and>
         0 \<le> second \<and> second < 60 \<and> 0 \<le> us \<and> us < US_PER_SECOND
      then Inr (combine (ymd2ord year month day)
                  (((hour * 60 + minute) * 60 + second) * US_PER_SECOND + us))
      else Inl ValueError)"

section \<open>Events and timers\<close>

record Event =
  event_id :: string
  title :: string
  event_when :: datetime
  chat_id :: int

definition DAILY_REMINDER_TIME :: time_of_day where
  "DAILY_REMINDER_TIME = time_hm 9 0"

definition REMINDER_OFFSETS :: "timedelta list" where
  "REMINDER_OFFSETS = [td_hours 10, td_hours 5, td_minutes 30, td_minutes 5, td_seconds 0]"

text \<open>
  A timer of the job queue. \<^verbatim>\<open>run_once\<close> and \<^verbatim>\<open>run_repeating\<close> receive a delay in
  seconds relative to the queue's clock; the job keeps the absolute time that delay
  denotes when the queue's clock reads the same \<open>now\<close> the caller used. The payload
  dictionary of the source has the keys \<^verbatim>\<open>user_id\<close>, \<^verbatim>\<open>event\<close> and, for reminders,
  \<^verbatim>\<open>offset\<close>.

  \<^verbatim>\<open>run_once\<close> is given the float \<^verbatim>\<open>(when - now).total_seconds()\<close>; the queue adds
  \<^verbatim>\<open>timedelta(seconds=delay)\<close> to its clock, which raises \<^verbatim>\<open>OverflowError\<close> beyond the last
  datetime. For an event centuries ahead the float no longer holds every microsecond, and
  the registered time can miss \<open>when\<close> by a microsecond. The delay of the repeating timer
  is at most one day, where the float and back returns the same microseconds; the model
  keeps that delay exact.
\<close>

datatype callback = Daily_countdown | Event_reminder

datatype trigger = Once datetime | Repeating datetime timedelta

record job =
  job_name :: string
  job_callback :: callback
  job_trigger :: trigger
  job_user_id :: int
  job_event :: Event
  job_offset :: "timedelta option"

type_synonym job_queue = "job list"

subsection \<open>Decimal rendering of integers in job names\<close>

definition digit_char :: "nat \<Rightarrow> char" where
  "digit_char n = ''0123456789'' ! n"

fun nat_digits :: "nat \<Rightarrow> string" where
  "nat_digits n = (if n < 10 then [digit_char n] else nat_digits (n div 10) @ [digit_char (n mod 10)])"

declare nat_digits.simps [simp del]

definition str_int :: "int \<Rightarrow> string" where
  "str_int i = (if i < 0 then CHR ''-'' # nat_digits (nat (- i)) else nat_digits (nat i))"

subsection \<open>Scheduling\<close>

definition get_jobs_by_name :: "job_queue \<Rightarrow> string \<Rightarrow> job list" where
  "get_jobs_by_name jq name = filter (\<lambda>j. job_name j = name) jq"

definition remove_existing_jobs :: "job_queue \<Rightarrow> string \<Rightarrow> job_queue" where
  "remove_existing_jobs jq name = foldl (\<lambda>q j. remove1 j q) jq (get_jobs_by_name jq name)"

definition run_repeating ::
  "job_queue \<Rightarrow> datetime \<Rightarrow> callback \<Rightarrow> timedelta \<Rightarrow> timedelta \<Rightarrow> string \<Rightarrow> int \<Rightarrow> Event \<Rightarrow> job_queue" where
  "run_repeating jq now cb interval first name user_id event =
     jq @ [\<lparr>job_name = name, job_callback = cb, job_trigger = Repeating (now + first) interval,
            job_user_id = user_id, job_event = event, job_offset = None\<rparr>]"

definition run_once ::
  "job_queue \<Rightarrow> datetime \<Rightarrow> callback \<Rightarrow> double \<Rightarrow> string \<Rightarrow> int \<Rightarrow> Event \<Rightarrow> timedelta
     \<Rightarrow> job_queue result" where
  "run_once jq now cb delay name user_id event offset =
     (case dt_add now (timedelta_seconds delay) of
        Inl err \<Rightarrow> Inl err
      | Inr run_at \<Rightarrow>
          Inr (jq @ [\<lparr>job_name = name, job_callback = cb, job_trigger = Once run_at,
                       job_user_id = user_id, job_event = event, job_offset = Some offset\<rparr>]))"

definition daily_job_name :: "int \<Rightarrow> Event \<Rightarrow> string" where
  "daily_job_name user_id event = ''daily-'' @ str_int user_id @ ''-'' @ event_id event"

definition reminder_job_name :: "int \<Rightarrow> Event \<Rightarrow> timedelta \<Rightarrow> string" where
  "reminder_job_name user_id event offset =
     ''reminder-'' @ str_int user_id @ ''-'' @ event_id event @ ''-'' @ str_int (total_seconds_int offset)"

definition schedule_daily_counter ::
  "job_queue \<Rightarrow> int \<Rightarrow> Event \<Rightarrow> datetime \<Rightarrow> job_queue \<times> unit result" where
  "schedule_daily_counter jq user_id event now =
     (let name = daily_job_name user_id event;
          jq1 = remove_existing_jobs jq name;
          today_target = combine (date_of now) DAILY_REMINDER_TIME
      in case (if today_target > now then Inr today_target else dt_add today_target (td_days 1)) of
           Inl err \<Rightarrow> (jq1, Inl err)
         | Inr first_run \<Rightarrow>
             (let delay = first_run - now
              in (run_repeating jq1 now Daily_countdown (td_days 1) delay name user_id event, Inr ())))"

fun schedule_event_reminders_loop ::
  "timedelta list \<Rightarrow> job_queue \<Rightarrow> int \<Rightarrow> Event \<Rightarrow> datetime \<Rightarrow> job_queue \<times> unit result" where
  "schedule_event_reminders_loop [] jq user_id event now = (jq, Inr ())"
| "schedule_event_reminders_loop (offset # rest) jq user_id event now =
     (case dt_sub (event_when event) offset of
        Inl err \<Rightarrow> (jq, Inl err)
      | Inr w \<Rightarrow>
          if w \<le> now then schedule_event_reminders_loop rest jq user_id event now
          else
            (let name = reminder_job_name user_id event offset;
                 jq1 = remove_existing_jobs jq name;
                 delay = total_seconds (w - now)
             in case run_once jq1 now Event_reminder delay name user_id event offset of
                  Inl err \<Rightarrow> (jq1, Inl err)
                | Inr jq2 \<Rightarrow> schedule_event_reminders_loop rest jq2 user_id event now))"

definition schedule_event_reminders ::
  "job_queue \<Rightarrow> int \<Rightarrow> Event \<Rightarrow> datetime \<Rightarrow> job_queue \<times> unit result" where
  "schedule_event_reminders jq user_id event now =
     schedule_event_reminders_loop REMINDER_OFFSETS jq user_id event now"

definition schedule_event_jobs ::
  "job_queue \<Rightarrow> int \<Rightarrow> Event \<Rightarrow> datetime \<Rightarrow> job_queue \<times> unit result" where
  "schedule_event_jobs jq user_id event now =
     (if event_when event \<le> now then (jq, Inr ())
      else case schedule_daily_counter jq user_id event now of
             (jq1, Inl err) \<Rightarrow> (jq1, Inl err)
           | (jq1, Inr _) \<Rightarrow> schedule_event_reminders jq1 user_id event now)"

subsection \<open>The timers a derivation is expected to register\<close>

text \<open>
  These definitions are not functions of the source: they describe, for comparison with
  \<^verbatim>\<open>schedule_daily_counter\<close> and \<^verbatim>\<open>schedule_event_reminders\<close>, the countdown timer, the
  reminder timer of one offset with the time the queue computes from the float delay, the
  offsets whose fire time is still ahead, the condition that no subtraction of an offset
  and no time the queue computes leaves the range of \<^verbatim>\<open>datetime\<close>, and the names
  and timers of one event. \<open>example_event\<close> is the event of the examples, at
  2024-12-31 18:00.
\<close>

definition daily_job :: "int \<Rightarrow> Event \<Rightarrow> datetime \<Rightarrow> job" where
  "daily_job user_id event first_run =
     \<lparr>job_name = daily_job_name user_id event, job_callback = Daily_countdown,
      job_trigger = Repeating first_run (td_days 1), job_user_id = user_id,
      job_event = event, job_offset = None\<rparr>"

definition queue_time :: "datetime \<Rightarrow> datetime \<Rightarrow> datetime" where
  "queue_time now target = now + timedelta_seconds (total_seconds (target - now))"

definition reminder_job :: "int \<Rightarrow> Event \<Rightarrow> datetime \<Rightarrow> timedelta \<Rightarrow> job" where
  "reminder_job user_id event now offset =
     \<lparr>job_name = reminder_job_name user_id event offset, job_callback = Event_reminder,
      job_trigger = Once (queue_time now (event_when event - offset)), job_user_id = user_id,
      job_event = event, job_offset = Some offset\<rparr>"

definition due_offsets :: "Event \<Rightarrow> datetime \<Rightarrow> timedelta list" where
  "due_offsets event now = filter (\<lambda>offset. now < event_when event - offset) REMINDER_OFFSETS"

definition offsets_fit :: "Event \<Rightarrow> datetime \<Rightarrow> timedelta list \<Rightarrow> bool" where
  "offsets_fit event now offsets =
     list_all (\<lambda>offset. valid_datetime (event_when event - offset) \<and>
                 (now < event_when event - offset \<longrightarrow>
                    valid_datetime (queue_time now (event_when event - offset)))) offsets"

definition example_event :: Event where
  "example_event = \<lparr>event_id = ''e1'', title = ''New Year'',
     event_when = combine (ymd2ord 2024 12 31) (time_hm 18 0), chat_id = 42\<rparr>"

definition event_timer_names :: "int \<Rightarrow> Event \<Rightarrow> datetime \<Rightarrow> string list" where
  "event_timer_names user_id event now =
     (if event_when event \<le> now then []
      else daily_job_name user_id event # map (reminder_job_name user_id event) (due_offsets event now))"

definition event_timer_jobs :: "int \<Rightarrow> Event \<Rightarrow> datetime \<Rightarrow> datetime \<Rightarrow> job list" where
  "event_timer_jobs user_id event now first_run =
     (if event_when event \<le> now then []
      else daily_job user_id event first_run
             # map (reminder_job user_id event now) (due_offsets event now))"

section \<open>Serialisation of events\<close>

subsection \<open>ISO 8601 text of a datetime\<close>

text \<open>
  \<^verbatim>\<open>datetime.isoformat()\<close> of a naive datetime is \<^verbatim>\<open>YYYY-MM-DDTHH:MM:SS\<close>, followed by
  \<^verbatim>\<open>.ffffff\<close> when the microsecond field is not zero. The calendar fields come from the
  day ordinal by the algorithm of the standard library (\<^verbatim>\<open>_ord2ymd\<close>), which counts whole
  400-year, 100-year, 4-year and 1-year cycles.
\<close>

definition days_in_month_tab :: "int \<Rightarrow> int" where
  "days_in_month_tab month =
     (if month = 2 then 28
      else if month = 4 \<or> month = 6 \<or> month = 9 \<or> month = 11 then 30
      else 31)"

definition ord2ymd :: "date \<Rightarrow> int \<times> int \<times> int" where
  "ord2ymd n =
     (let n0 = n - 1;
          n400 = n0 div 146097; r400 = n0 mod 146097;
          n100 = r400 div 36524; r100 = r400 mod 36524;
          n4 = r100 div 1461; r4 = r100 mod 1461;
          n1 = r4 div 365; r1 = r4 mod 365;
          year = n400 * 400 + 1 + n100 * 100 + n4 * 4 + n1
      in if n1 = 4 \<or> n100 = 4 then (year - 1, 12, 31)
         else
           (let leapyear = (n1 = 3 \<and> (n4 \<noteq> 24 \<or> n100 = 3));
                month = (r1 + 50) div 32;
                preceding = days_before_month_tab month + (if month > 2 \<and> leapyear then 1 else 0)
            in if preceding > r1
               then (year, month - 1,
                     r1 - (preceding - (days_in_month_tab (month - 1)
                                         + (if month - 1 = 2 \<and> leapyear then 1 else 0))) + 1)
               else (year, month, r1 - preceding + 1)))"

text \<open>\<^verbatim>\<open>"%0wd" % n\<close> for a number of at most \<open>w\<close> digits.\<close>

fun pad_digits :: "nat \<Rightarrow> nat \<Rightarrow> string" where
  "pad_digits 0 n = []"
| "pad_digits (Suc w) n = pad_digits w (n div 10) @ [digit_char (n mod 10)]"

definition isoformat :: "datetime \<Rightarrow> string" where
  "isoformat t =
     (case ord2ymd (date_of t) of (year, month, day) \<Rightarrow>
        (let tod = time_of t;
             hour = tod div (3600 * US_PER_SECOND);
             minute = (tod div (60 * US_PER_SECOND)) mod 60;
             second = (tod div US_PER_SECOND) mod 60;
             us = tod mod US_PER_SECOND
         in pad_digits 4 (nat year) @ ''-'' @ pad_digits 2 (nat month) @ ''-'' @ pad_digits 2 (nat day)
            @ ''T'' @ pad_digits 2 (nat hour) @ '':'' @ pad_digits 2 (nat minute) @ '':''
            @ pad_digits 2 (nat second)
            @ (if us \<noteq> 0 then ''.'' @ pad_digits 6 (nat us) else [])))"

definition digit_val :: "char \<Rightarrow> nat option" where
  "digit_val c =
     (if (48::nat) \<le> of_char c \<and> of_char c \<le> (57::nat) then Some (of_char c - 48) else None)"

fun parse_digits :: "nat \<Rightarrow> string \<Rightarrow> nat option" where
  "parse_digits acc [] = Some acc"
| "parse_digits acc (c # cs) =
     (case digit_val c of None \<Rightarrow> None | Some d \<Rightarrow> parse_digits (acc * 10 + d) cs)"

definition field :: "string \<Rightarrow> nat \<Rightarrow> nat \<Rightarrow> nat option" where
  "field s i w = parse_digits 0 (take w (drop i s))"

text \<open>
  \<^verbatim>\<open>datetime.fromisoformat\<close>, as far as every version of the interpreter agrees. A text
  of fewer than seven characters, or one that does not start with four digits, raises
  \<^verbatim>\<open>ValueError\<close>. A text of one of the two shapes \<^verbatim>\<open>isoformat\<close> writes for a naive
  datetime, \<^verbatim>\<open>YYYY-MM-DD*HH:MM:SS\<close> and \<^verbatim>\<open>YYYY-MM-DD*HH:MM:SS.ffffff\<close> with any single
  character for \<^verbatim>\<open>*\<close>, is the datetime of its fields, and raises \<^verbatim>\<open>ValueError\<close> when
  a field is out of range. On every other text the result is \<open>Unmodelled\<close>: the
  interpreter accepts further ISO 8601 shapes (a date alone, \<^verbatim>\<open>HH:MM\<close>, short
  fractions, UTC offsets, which give a datetime with a time zone), depending on its
  version, as it does the hour 24.
\<close>

definition fromisoformat :: "string \<Rightarrow> datetime result" where
  "fromisoformat s =
     (if length s < 7 \<or> field s 0 4 = None then Inl ValueError
      else if (length s = 19 \<or> (length s = 26 \<and> s ! 19 = CHR ''.''))
         \<and> s ! 4 = CHR ''-'' \<and> s ! 7 = CHR ''-'' \<and> s ! 13 = CHR '':'' \<and> s ! 16 = CHR '':''
      then
        (case (field s 0 4, field s 5 2, field s 8 2, field s 11 2, field s 14 2, field s 17 2,
               if length s = 26 then field s 20 6 else Some 0) of
           (Some year, Some month, Some day, Some hour, Some minute, Some second, Some us) \<Rightarrow>
             if hour = 24 then Inl Unmodelled
             else mk_datetime (int year) (int month) (int day) (int hour) (int minute)
                    (int second) (int us)
         | _ \<Rightarrow> Inl Unmodelled)
      else Inl Unmodelled)"

subsection \<open>Events as JSON objects\<close>

text \<open>
  A value read by \<^verbatim>\<open>json.load\<close> or written by \<^verbatim>\<open>json.dump\<close>; an object lists its
  members in the order of the dictionary, whose keys are distinct. Floating-point numbers
  do not occur in the store and are left out.
\<close>

datatype json =
    JNull
  | JBool bool
  | JInt int
  | JStr string
  | JArr "json list"
  | JObj "(string \<times> json) list"

definition to_dict :: "Event \<Rightarrow> json" where
  "to_dict event =
     JObj [(''id'', JStr (event_id event)),
           (''title'', JStr (title event)),
           (''when'', JStr (isoformat (event_when event))),
           (''chat_id'', JInt (chat_id event))]"

text \<open>\<^verbatim>\<open>raw[key]\<close> for a string key.\<close>

definition getitem :: "json \<Rightarrow> string \<Rightarrow> json result" where
  "getitem raw key =
     (case raw of
        JObj members \<Rightarrow> (case map_of members key of None \<Rightarrow> Inl (KeyError key) | Some v \<Rightarrow> Inr v)
      | _ \<Rightarrow> Inl TypeError)"

text \<open>
  \<^verbatim>\<open>Event.from_dict\<close> evaluates its four arguments in order: a missing key raises
  \<^verbatim>\<open>KeyError\<close>, a record that is no object raises \<^verbatim>\<open>TypeError\<close>, as does a \<open>when\<close>
  that is no string. A dataclass does not check the types of its fields: once the four
  arguments are there, the source builds an object also from a record whose id or title is
  not a string or whose chat id is not an integer. The typed record \<open>Event\<close> has no
  such value, and the result is \<open>Unmodelled\<close>.
\<close>

definition from_dict :: "json \<Rightarrow> Event result" where
  "from_dict raw =
     (case getitem raw ''id'' of
        Inl err \<Rightarrow> Inl err
      | Inr v_id \<Rightarrow>
     (case getitem raw ''title'' of
        Inl err \<Rightarrow> Inl err
      | Inr v_title \<Rightarrow>
     (case getitem raw ''when'' of
        Inl err \<Rightarrow> Inl err
      | Inr v_when \<Rightarrow>
     (case (case v_when of JStr s \<Rightarrow> fromisoformat s | _ \<Rightarrow> Inl TypeError) of
        Inl err \<Rightarrow> Inl err
      | Inr w \<Rightarrow>
     (case getitem raw ''chat_id'' of
        Inl err \<Rightarrow> Inl err
      | Inr v_chat \<Rightarrow>
     (case (v_id, v_title, v_chat) of
        (JStr i, JStr t, JInt c) \<Rightarrow>
          Inr \<lparr>event_id = i, title = t, event_when = w, chat_id = c\<rparr>
      | _ \<Rightarrow> Inl Unmodelled))))))"

section \<open>The event store\<close>

text \<open>
  A path is kept as directory, stem and suffix of the file name, which is all
  \<^verbatim>\<open>with_suffix\<close> needs. A file holds a complete JSON document, for which \<^verbatim>\<open>json.load\<close>
  returns the value \<^verbatim>\<open>json.dump\<close> was given, or some other text, on which \<^verbatim>\<open>json.load\<close>
  raises \<^verbatim>\<open>JSONDecodeError\<close>.
\<close>

record path =
  path_parent :: string
  path_stem :: string
  path_suffix :: string

definition with_suffix :: "path \<Rightarrow> string \<Rightarrow> path" where
  "with_suffix p suffix = p\<lparr>path_suffix := suffix\<rparr>"

definition STORAGE_PATH :: path where
  "STORAGE_PATH = \<lparr>path_parent = ''data'', path_stem = ''events'', path_suffix = ''.json''\<rparr>"

datatype file_content = Doc json | Garbage string

type_synonym filesystem = "path \<Rightarrow> file_content option"

type_synonym store_data = "(string \<times> Event list) list"

fun from_dict_all :: "json list \<Rightarrow> Event list result" where
  "from_dict_all [] = Inr []"
| "from_dict_all (item # items) =
     (case from_dict item of
        Inl err \<Rightarrow> Inl err
      | Inr event \<Rightarrow>
          (case from_dict_all items of Inl err \<Rightarrow> Inl err | Inr events \<Rightarrow> Inr (event # events)))"

text \<open>
  \<^verbatim>\<open>[Event.from_dict(item) for item in items]\<close>: a string iterates over its characters
  and an object over its keys, on which \<^verbatim>\<open>from_dict\<close> raises \<^verbatim>\<open>TypeError\<close>; the other
  values are not iterable.
\<close>

definition events_of_items :: "json \<Rightarrow> Event list result" where
  "events_of_items items =
     (case items of
        JArr its \<Rightarrow> from_dict_all its
      | JStr s \<Rightarrow> if s = [] then Inr [] else Inl TypeError
      | JObj members \<Rightarrow> if members = [] then Inr [] else Inl TypeError
      | _ \<Rightarrow> Inl TypeError)"

fun read_entries :: "(string \<times> json) list \<Rightarrow> store_data result" where
  "read_entries [] = Inr []"
| "read_entries ((user_id, items) # rest) =
     (case events_of_items items of
        Inl err \<Rightarrow> Inl err
      | Inr events \<Rightarrow>
          (case read_entries rest of Inl err \<Rightarrow> Inl err | Inr data \<Rightarrow> Inr ((user_id, events) # data)))"

text \<open>\<^verbatim>\<open>EventStore._read\<close>.\<close>

definition store_read :: "filesystem \<Rightarrow> path \<Rightarrow> store_data result" where
  "store_read fs p =
     (case fs p of
        None \<Rightarrow> Inr []
      | Some (Garbage text) \<Rightarrow> Inl JSONDecodeError
      | Some (Doc raw) \<Rightarrow>
          (case raw of JObj members \<Rightarrow> read_entries members | _ \<Rightarrow> Inl AttributeError))"

text \<open>
  \<^verbatim>\<open>EventStore._write\<close>, with the point at which the write fails or the process stops:
  at \<^verbatim>\<open>mkdir\<close>, at opening the temporary file, while \<^verbatim>\<open>json.dump\<close> has written only
  part of the text, or at the rename. \<^verbatim>\<open>open(tmp_path, "w")\<close> creates or truncates the
  temporary file; \<^verbatim>\<open>replace\<close> moves it over the store's file in one step.
\<close>

datatype fault = No_fault | Fail_mkdir | Fail_open | Fail_dump string | Fail_replace

definition store_write :: "fault \<Rightarrow> filesystem \<Rightarrow> path \<Rightarrow> store_data \<Rightarrow> filesystem \<times> unit result" where
  "store_write fault fs p data =
     (if fault = Fail_mkdir then (fs, Inl OSError)
      else
        (let raw = JObj (map (\<lambda>(user_id, items). (user_id, JArr (map to_dict items))) data);
             tmp_path = with_suffix p ''.tmp''
         in if fault = Fail_open then (fs, Inl OSError)
            else
              (let fs1 = fs(tmp_path \<mapsto> Garbage [])
               in case fault of
                    Fail_dump written \<Rightarrow> (fs1(tmp_path \<mapsto> Garbage written), Inl OSError)
                  | _ \<Rightarrow>
                      (let fs2 = fs1(tmp_path \<mapsto> Doc raw)
                       in if fault = Fail_replace then (fs2, Inl OSError)
                          else ((fs2(tmp_path := None))(p \<mapsto> Doc raw), Inr ())))))"

definition load_all :: "filesystem \<Rightarrow> path \<Rightarrow> store_data result" where
  "load_all fs p = store_read fs p"

definition dict_get :: "('k \<times> 'v list) list \<Rightarrow> 'k \<Rightarrow> 'v list" where
  "dict_get data key = (case map_of data key of None \<Rightarrow> [] | Some v \<Rightarrow> v)"

definition list_events :: "filesystem \<Rightarrow> path \<Rightarrow> int \<Rightarrow> Event list result" where
  "list_events fs p user_id =
     (case store_read fs p of
        Inl err \<Rightarrow> Inl err
      | Inr data \<Rightarrow> Inr (sort_key event_when (dict_get data (str_int user_id))))"

definition add_event :: "fault \<Rightarrow> filesystem \<Rightarrow> path \<Rightarrow> int \<Rightarrow> Event \<Rightarrow> filesystem \<times> unit result" where
  "add_event fault fs p user_id event =
     (case store_read fs p of
        Inl err \<Rightarrow> (fs, Inl err)
      | Inr data \<Rightarrow>
          (let user_key = str_int user_id;
               events = dict_get data user_key @ [event];
               events' = sort_key event_when events;
               data' = AList.update user_key events' data
           in store_write fault fs p data'))"

section \<open>The application: creating events, callbacks, recovery\<close>

text \<open>
  The state the operations act on: the files of the store, the timers of the job queue and
  the messages sent to chats. The text of a countdown message is kept as the title and the
  number of days that the template is filled with.
\<close>

datatype message_text = Days_left string int

record message =
  msg_chat_id :: int
  msg_text :: message_text

record world =
  files :: filesystem
  queue :: job_queue
  sent :: "message list"

text \<open>
  \<^verbatim>\<open>create_event_and_schedule\<close>. The identifier drawn by \<^verbatim>\<open>uuid.uuid4()\<close> and the reading of
  the clock are arguments. A failure after the store has been written leaves the store
  written, as an exception would.
\<close>

definition create_event_and_schedule ::
  "fault \<Rightarrow> datetime \<Rightarrow> string \<Rightarrow> int \<Rightarrow> int \<Rightarrow> string \<Rightarrow> datetime \<Rightarrow> path \<Rightarrow> world
     \<Rightarrow> world \<times> Event result" where
  "create_event_and_schedule fault now new_id user_id chat new_title new_when store w =
     (let event = \<lparr>event_id = new_id, title = new_title, event_when = new_when, chat_id = chat\<rparr>
      in case add_event fault (files w) store user_id event of
           (fs, Inl err) \<Rightarrow> (w\<lparr>files := fs\<rparr>, Inl err)
         | (fs, Inr _) \<Rightarrow>
             (case schedule_event_jobs (queue w) user_id event now of
                (jq, Inl err) \<Rightarrow> (w\<lparr>files := fs, queue := jq\<rparr>, Inl err)
              | (jq, Inr _) \<Rightarrow> (w\<lparr>files := fs, queue := jq\<rparr>, Inr event)))"

text \<open>
  The two callers, from the point where the title and the result of \<^verbatim>\<open>parse_datetime\<close>
  are at hand: \<^verbatim>\<open>add_event_command\<close> after splitting the command text, and
  \<^verbatim>\<open>add_event_date\<close> of the guided flow, which stays in the state \<^verbatim>\<open>DATE\<close> on a
  rejected input. The answer sent to the chat is the returned reply.
\<close>

datatype reply =
    Reply_empty_title
  | Reply_bad_date
  | Reply_not_future
  | Reply_added string datetime

datatype conversation = DATE | END

definition add_event_command ::
  "fault \<Rightarrow> datetime \<Rightarrow> string \<Rightarrow> int \<Rightarrow> int \<Rightarrow> string \<Rightarrow> datetime option \<Rightarrow> path \<Rightarrow> world
     \<Rightarrow> world \<times> reply result" where
  "add_event_command fault now new_id user_id chat title_raw parsed store w =
     (if title_raw = [] then (w, Inr Reply_empty_title)
      else case parsed of
             None \<Rightarrow> (w, Inr Reply_bad_date)
           | Some new_when \<Rightarrow>
               if new_when \<le> now then (w, Inr Reply_not_future)
               else
                 (case create_event_and_schedule fault now new_id user_id chat title_raw new_when
                         store w of
                    (w', Inl err) \<Rightarrow> (w', Inl err)
                  | (w', Inr event) \<Rightarrow> (w', Inr (Reply_added (title event) (event_when event)))))"

definition add_event_date ::
  "fault \<Rightarrow> datetime \<Rightarrow> string \<Rightarrow> int \<Rightarrow> int \<Rightarrow> string \<Rightarrow> datetime option \<Rightarrow> path \<Rightarrow> world
     \<Rightarrow> world \<times> (reply \<times> conversation) result" where
  "add_event_date fault now new_id user_id chat new_title parsed store w =
     (case parsed of
        None \<Rightarrow> (w, Inr (Reply_bad_date, DATE))
      | Some new_when \<Rightarrow>
          if new_when \<le> now then (w, Inr (Reply_not_future, DATE))
          else
            (case create_event_and_schedule fault now new_id user_id chat new_title new_when
                    store w of
               (w', Inl err) \<Rightarrow> (w', Inl err)
             | (w', Inr event) \<Rightarrow>
                 (w', Inr (Reply_added (title event) (event_when event), END))))"

text \<open>
  \<^verbatim>\<open>daily_countdown\<close>, the callback of the repeating timer: \<^verbatim>\<open>context.job\<close> is the firing
  timer, and \<^verbatim>\<open>schedule_removal\<close> takes it out of the queue.
\<close>

definition daily_countdown :: "job \<Rightarrow> datetime \<Rightarrow> world \<Rightarrow> world" where
  "daily_countdown j now w =
     (let event = job_event j
      in if event_when event \<le> now then w\<lparr>queue := remove1 j (queue w)\<rparr>
         else
           (let days_left = date_of (event_when event) - date_of now
            in w\<lparr>sent := sent w @ [\<lparr>msg_chat_id = chat_id event,
                                     msg_text = Days_left (title event) days_left\<rparr>]\<rparr>))"

subsection \<open>Recovery\<close>

text \<open>
  \<^verbatim>\<open>int(user_id_str)\<close>: surrounding whitespace is dropped, a sign may lead, and single
  underscores may stand between digits. A character of the model is a code point below
  256. Of these \<^verbatim>\<open>int\<close> drops the space, the control characters 9 to 13 and the code
  points 0x85 and 0xA0, and reads the ASCII digits as digits. The limit the interpreter
  puts on the number of digits is not modelled.
\<close>

definition is_space :: "char \<Rightarrow> bool" where
  "is_space c = (c \<in> set [CHR '' '', CHR 0x09, CHR 0x0A, CHR 0x0B, CHR 0x0C, CHR 0x0D,
                           CHR 0x85, CHR 0xA0])"

definition strip :: "string \<Rightarrow> string" where
  "strip s = rev (dropWhile is_space (rev (dropWhile is_space s)))"

fun int_digits :: "nat \<Rightarrow> bool \<Rightarrow> string \<Rightarrow> nat option" where
  "int_digits acc after_digit [] = (if after_digit then Some acc else None)"
| "int_digits acc after_digit (c # cs) =
     (if c = CHR ''_'' then (if after_digit \<and> cs \<noteq> [] then int_digits acc False cs else None)
      else case digit_val c of None \<Rightarrow> None | Some d \<Rightarrow> int_digits (acc * 10 + d) True cs)"

definition py_int :: "string \<Rightarrow> int option" where
  "py_int s =
     (case strip s of
        [] \<Rightarrow> None
      | c # cs \<Rightarrow>
          if c = CHR ''-'' then map_option (\<lambda>n. - int n) (int_digits 0 False cs)
          else if c = CHR ''+'' then map_option int (int_digits 0 False cs)
          else map_option int (int_digits 0 False (c # cs)))"

fun reschedule_events :: "Event list \<Rightarrow> job_queue \<Rightarrow> int \<Rightarrow> datetime \<Rightarrow> job_queue \<times> unit result" where
  "reschedule_events [] jq user_id now = (jq, Inr ())"
| "reschedule_events (event # rest) jq user_id now =
     (if event_when event > now
      then (case schedule_event_jobs jq user_id event now of
              (jq1, Inl err) \<Rightarrow> (jq1, Inl err)
            | (jq1, Inr _) \<Rightarrow> reschedule_events rest jq1 user_id now)
      else reschedule_events rest jq user_id now)"

fun reschedule_owners :: "store_data \<Rightarrow> job_queue \<Rightarrow> datetime \<Rightarrow> job_queue \<times> unit result" where
  "reschedule_owners [] jq now = (jq, Inr ())"
| "reschedule_owners ((user_id_str, events) # rest) jq now =
     (case py_int user_id_str of
        None \<Rightarrow> reschedule_owners rest jq now
      | Some user_id \<Rightarrow>
          (case reschedule_events events jq user_id now of
             (jq1, Inl err) \<Rightarrow> (jq1, Inl err)
           | (jq1, Inr _) \<Rightarrow> reschedule_owners rest jq1 now))"

definition reschedule_all_events :: "world \<Rightarrow> path \<Rightarrow> datetime \<Rightarrow> world \<times> unit result" where
  "reschedule_all_events w store now =
     (case load_all (files w) store of
        Inl err \<Rightarrow> (w, Inl err)
      | Inr data \<Rightarrow>
          (case reschedule_owners data (queue w) now of
             (jq, r) \<Rightarrow> (w\<lparr>queue := jq\<rparr>, r)))"

section \<open>Notions used to state the claims\<close>

text \<open>
  The definitions of this section are not taken from the source. They name what the claims
  speak about: stored data whose timestamps are representable and whose sequences are
  sorted, the scheduling of a list of events one after the other by the call the creation
  path makes, and the data of the examples, among them an event of the year 2400 and a
  clock reading of 2024-12-31 17:40:00.000001.
\<close>

definition events_valid :: "Event list \<Rightarrow> bool" where
  "events_valid events = list_all (\<lambda>e. valid_datetime (event_when e)) events"

definition data_valid :: "store_data \<Rightarrow> bool" where
  "data_valid data = list_all (\<lambda>(user_id, events). events_valid events) data"

definition raw_of_data :: "store_data \<Rightarrow> json" where
  "raw_of_data data = JObj (map (\<lambda>(user_id, items). (user_id, JArr (map to_dict items))) data)"

definition stored_sorted :: "store_data \<Rightarrow> bool" where
  "stored_sorted data = list_all (\<lambda>(user_id, events). sorted (map event_when events)) data"

definition empty_world :: world where
  "empty_world = \<lparr>files = Map.empty, queue = [], sent = []\<rparr>"

fun schedule_each :: "(int \<times> Event) list \<Rightarrow> job_queue \<Rightarrow> datetime \<Rightarrow> job_queue \<times> unit result" where
  "schedule_each [] jq now = (jq, Inr ())"
| "schedule_each ((user_id, event) # rest) jq now =
     (case schedule_event_jobs jq user_id event now of
        (jq1, Inl err) \<Rightarrow> (jq1, Inl err)
      | (jq1, Inr _) \<Rightarrow> schedule_each rest jq1 now)"

definition owner_events :: "store_data \<Rightarrow> (int \<times> Event) list" where
  "owner_events data =
     concat (map (\<lambda>(user_id_str, events).
                    case py_int user_id_str of
                      None \<Rightarrow> []
                    | Some user_id \<Rightarrow> map (Pair user_id) events) data)"

definition example_store :: filesystem where
  "example_store = Map.empty(STORAGE_PATH \<mapsto> Doc (JObj [(''7'', JArr [to_dict example_event])]))"




definition example_queue :: job_queue where
  "example_queue =
     [daily_job 7 example_event (combine (ymd2ord 2025 1 1) (time_hm 9 0)),
      reminder_job 7 example_event (combine (ymd2ord 2024 12 31) (time_hm 17 40)) (td_minutes 5),
      reminder_job 7 example_event (combine (ymd2ord 2024 12 31) (time_hm 17 40)) (td_seconds 0)]"




section \<open>Auxiliary facts about seconds as floating-point numbers\<close>








lemma bit_length_numeral [simp]:
  "bit_length (numeral k) = Suc (bit_length (numeral k div 2))"
  by (subst bit_length.simps) simp

lemma bit_length_0 [simp]: "bit_length 0 = 0"
  by (subst bit_length.simps) simp

lemma bit_length_1 [simp]: "bit_length (Suc 0) = Suc 0"
  by (subst bit_length.simps) simp



lemmas float_defs = timedelta_seconds_def total_seconds_def double_of_ratio_def scale2_def
  nonneg_seconds_def round_half_even_def Let_def US_PER_SECOND_def




section \<open>Auxiliary facts about scheduling\<close>

lemma foldl_remove1_filter:
  "foldl (\<lambda>q j. remove1 j q) (filter (\<lambda>x. \<not> P x) pre @ xs) (filter P xs)
     = filter (\<lambda>x. \<not> P x) pre @ filter (\<lambda>x. \<not> P x) xs"
proof (induction xs arbitrary: pre)
  case Nil
  then show ?case by simp
next
  case (Cons x xs)
  show ?case
  proof (cases "P x")
    case True
    have "x \<notin> set (filter (\<lambda>x. \<not> P x) pre)" using True by simp
    then have "remove1 x (filter (\<lambda>x. \<not> P x) pre @ x # xs) = filter (\<lambda>x. \<not> P x) pre @ xs"
      by (subst remove1_append) auto
    then show ?thesis using True Cons.IH [of pre] by simp
  next
    case False
    then show ?thesis using Cons.IH [of "pre @ [x]"] by simp
  qed
qed

lemma remove_existing_jobs_filter:
  "remove_existing_jobs jq name = filter (\<lambda>j. job_name j \<noteq> name) jq"
  using foldl_remove1_filter [of "\<lambda>j. job_name j = name" "[]" jq]
  by (simp add: remove_existing_jobs_def get_jobs_by_name_def)

lemma job_name_reminder_job [simp]: "job_name (reminder_job u e now off) = reminder_job_name u e off"
  by (simp add: reminder_job_def)

lemma job_name_daily_job [simp]: "job_name (daily_job u e fr) = daily_job_name u e"
  by (simp add: daily_job_def)

lemma loop_char:
  assumes "offsets_fit e now offs"
    and "distinct (map (reminder_job_name u e) offs)"
  shows "schedule_event_reminders_loop offs jq u e now =
           (filter (\<lambda>j. job_name j \<notin> reminder_job_name u e ` set (filter (\<lambda>off. now < event_when e - off) offs)) jq
              @ map (reminder_job u e now) (filter (\<lambda>off. now < event_when e - off) offs), Inr ())"
  using assms
proof (induction offs arbitrary: jq)
  case Nil
  then show ?case by simp
next
  case (Cons off rest)
  have fit: "valid_datetime (event_when e - off)"
    "now < event_when e - off \<longrightarrow> valid_datetime (queue_time now (event_when e - off))"
    "offsets_fit e now rest"
    using Cons.prems(1) by (simp_all add: offsets_fit_def)
  have v: "dt_sub (event_when e) off = Inr (event_when e - off)"
    using fit(1) by (simp add: dt_sub_def dt_add_def)
  have ih: "\<And>q. schedule_event_reminders_loop rest q u e now =
           (filter (\<lambda>j. job_name j \<notin> reminder_job_name u e ` set (filter (\<lambda>off. now < event_when e - off) rest)) q
              @ map (reminder_job u e now) (filter (\<lambda>off. now < event_when e - off) rest), Inr ())"
    using Cons.IH fit(3) Cons.prems(2) by simp
  show ?case
  proof (cases "event_when e - off \<le> now")
    case True
    then show ?thesis using v ih by simp
  next
    case False
    have nin: "reminder_job_name u e off \<notin> reminder_job_name u e ` set (filter (\<lambda>off. now < event_when e - off) rest)"
      using Cons.prems(2) by auto
    have q: "valid_datetime (now + timedelta_seconds (total_seconds (event_when e - off - now)))"
      using False fit(2) by (simp add: queue_time_def)
    have rj: "run_once (remove_existing_jobs jq (reminder_job_name u e off)) now Event_reminder
                (total_seconds (event_when e - off - now)) (reminder_job_name u e off) u e off
              = Inr (filter (\<lambda>j. job_name j \<noteq> reminder_job_name u e off) jq
                       @ [reminder_job u e now off])"
      using q
      by (simp add: run_once_def dt_add_def remove_existing_jobs_filter reminder_job_def
          queue_time_def)
    show ?thesis
      using False v nin
      by (simp add: ih rj Let_def)
  qed
qed

lemma reminder_offsets_seconds:
  "map (\<lambda>off. str_int (total_seconds_int off)) REMINDER_OFFSETS
     = [''36000'', ''18000'', ''1800'', ''300'', ''0'']"
  by (simp add: REMINDER_OFFSETS_def td_hours_def td_minutes_def td_seconds_def US_PER_SECOND_def
      total_seconds_int_def str_int_def nat_digits.simps digit_char_def)

lemma distinct_reminder_names: "distinct (map (reminder_job_name u e) REMINDER_OFFSETS)"
proof -
  have "map (reminder_job_name u e) REMINDER_OFFSETS
      = map (\<lambda>s. (''reminder-'' @ str_int u @ ''-'' @ event_id e @ ''-'') @ s)
          (map (\<lambda>off. str_int (total_seconds_int off)) REMINDER_OFFSETS)"
    by (simp add: reminder_job_name_def)
  then show ?thesis
    unfolding reminder_offsets_seconds by (simp del: append_assoc)
qed

lemma daily_name_not_reminder: "daily_job_name u e \<noteq> reminder_job_name u' e' off"
  by (simp add: daily_job_name_def reminder_job_name_def)


lemma loop_ok_valid:
  "schedule_event_reminders_loop offs jq u e now = (jq1, Inr ()) \<Longrightarrow> offsets_fit e now offs"
proof (induction offs arbitrary: jq)
  case Nil
  then show ?case by (simp add: offsets_fit_def)
next
  case (Cons off rest)
  have v: "valid_datetime (event_when e - off)"
    using Cons.prems by (auto simp: dt_sub_def dt_add_def split: if_splits)
  then have w: "dt_sub (event_when e) off = Inr (event_when e - off)"
    by (simp add: dt_sub_def dt_add_def)
  show ?case
  proof (cases "event_when e - off \<le> now")
    case True
    then have "schedule_event_reminders_loop rest jq u e now = (jq1, Inr ())"
      using Cons.prems w by simp
    then have "offsets_fit e now rest" by (rule Cons.IH)
    then show ?thesis using v True by (simp add: offsets_fit_def)
  next
    case False
    obtain jq2 where r: "run_once (remove_existing_jobs jq (reminder_job_name u e off)) now
          Event_reminder (total_seconds (event_when e - off - now)) (reminder_job_name u e off)
          u e off = Inr jq2"
      and l: "schedule_event_reminders_loop rest jq2 u e now = (jq1, Inr ())"
      using Cons.prems w False by (auto simp: Let_def split: sum.splits)
    have "valid_datetime (queue_time now (event_when e - off))"
      using r by (auto simp: run_once_def dt_add_def queue_time_def split: if_splits)
    moreover have "offsets_fit e now rest" using l by (rule Cons.IH)
    ultimately show ?thesis using v by (simp add: offsets_fit_def)
  qed
qed

lemma schedule_event_reminders_char:
  assumes "offsets_fit e now REMINDER_OFFSETS"
  shows "schedule_event_reminders jq u e now =
           (filter (\<lambda>j. job_name j \<notin> reminder_job_name u e ` set (due_offsets e now)) jq
              @ map (reminder_job u e now) (due_offsets e now), Inr ())"
  unfolding schedule_event_reminders_def due_offsets_def
  by (rule loop_char [OF assms distinct_reminder_names])

lemma schedule_daily_counter_char:
  "schedule_daily_counter jq u e now =
     (case (if combine (date_of now) DAILY_REMINDER_TIME > now
            then Inr (combine (date_of now) DAILY_REMINDER_TIME)
            else dt_add (combine (date_of now) DAILY_REMINDER_TIME) (td_days 1)) of
        Inl err \<Rightarrow> (filter (\<lambda>j. job_name j \<noteq> daily_job_name u e) jq, Inl err)
      | Inr first_run \<Rightarrow>
          (filter (\<lambda>j. job_name j \<noteq> daily_job_name u e) jq @ [daily_job u e first_run], Inr ()))"
  by (simp add: schedule_daily_counter_def Let_def remove_existing_jobs_filter run_repeating_def
      daily_job_def split: sum.splits)

lemma today_target_gt_iff:
  "(combine (date_of now) DAILY_REMINDER_TIME > now) = (time_of now < DAILY_REMINDER_TIME)"
proof -
  define D where "D = (now div US_PER_DAY) * US_PER_DAY"
  have "now = D + now mod US_PER_DAY" unfolding D_def by simp
  moreover have "combine (date_of now) DAILY_REMINDER_TIME = D + DAILY_REMINDER_TIME"
    unfolding D_def combine_def date_of_def by simp
  ultimately show ?thesis
    unfolding time_of_def by linarith
qed

lemma time_of_combine:
  "0 \<le> tm \<Longrightarrow> tm < US_PER_DAY \<Longrightarrow> time_of (combine d tm) = tm"
  by (simp add: time_of_def combine_def)

lemma date_of_combine:
  "0 \<le> tm \<Longrightarrow> tm < US_PER_DAY \<Longrightarrow> date_of (combine d tm) = d"
  by (simp add: date_of_def combine_def US_PER_DAY_def)

lemma daily_time_range: "0 \<le> DAILY_REMINDER_TIME \<and> DAILY_REMINDER_TIME < US_PER_DAY"
  by (simp add: DAILY_REMINDER_TIME_def time_hm_def US_PER_SECOND_def US_PER_DAY_def)

lemma combine_next_day: "combine (d + 1) tm = combine d tm + td_days 1"
  by (simp add: combine_def td_days_def algebra_simps)

lemma next_target_least:
  assumes "now < t" "time_of t = DAILY_REMINDER_TIME"
  shows "(if time_of now < DAILY_REMINDER_TIME then combine (date_of now) DAILY_REMINDER_TIME
          else combine (date_of now + 1) DAILY_REMINDER_TIME) \<le> t"
proof -
  define A where "A = (now div US_PER_DAY) * US_PER_DAY"
  define B where "B = (t div US_PER_DAY) * US_PER_DAY"
  have t: "t = B + DAILY_REMINDER_TIME"
    using assms(2) unfolding time_of_def B_def by (metis div_mult_mod_eq)
  have n: "now = A + time_of now"
    unfolding time_of_def A_def by simp
  have c0: "combine (date_of now) DAILY_REMINDER_TIME = A + DAILY_REMINDER_TIME"
    unfolding A_def combine_def date_of_def by simp
  have c1: "combine (date_of now + 1) DAILY_REMINDER_TIME = A + US_PER_DAY + DAILY_REMINDER_TIME"
    unfolding A_def combine_def date_of_def by (simp add: algebra_simps)
  have le: "now div US_PER_DAY \<le> t div US_PER_DAY"
    using assms(1) by (simp add: zdiv_mono1 US_PER_DAY_def)
  show ?thesis
  proof (cases "time_of now < DAILY_REMINDER_TIME")
    case True
    have "A \<le> B"
      unfolding A_def B_def using le by (simp add: US_PER_DAY_def)
    then show ?thesis using True t c0 by simp
  next
    case False
    have "now div US_PER_DAY \<noteq> t div US_PER_DAY"
    proof
      assume "now div US_PER_DAY = t div US_PER_DAY"
      then have "A = B" unfolding A_def B_def by simp
      then have "t \<le> now" using t n False by linarith
      then show False using assms(1) by simp
    qed
    then have "now div US_PER_DAY + 1 \<le> t div US_PER_DAY" using le by linarith
    then have "(now div US_PER_DAY + 1) * US_PER_DAY \<le> (t div US_PER_DAY) * US_PER_DAY"
      by (simp add: US_PER_DAY_def)
    then have "A + US_PER_DAY \<le> B"
      unfolding A_def B_def by (simp add: algebra_simps)
    then show ?thesis using False t c1 by simp
  qed
qed

lemmas cal_defs = ymd2ord_def days_before_year_def days_before_month_def days_before_month_tab_def
  is_leap_def combine_def time_hm_def US_PER_SECOND_def US_PER_DAY_def date_of_def time_of_def
  DAILY_REMINDER_TIME_def MAXORDINAL_def td_days_def td_hours_def td_minutes_def td_seconds_def
  valid_datetime_def

lemma distinct_event_timer_names: "distinct (event_timer_names u e now)"
proof -
  have "distinct (map (reminder_job_name u e) (due_offsets e now))"
    unfolding due_offsets_def using distinct_reminder_names [of u e]
    by (simp add: distinct_map_filter)
  then show ?thesis
    by (auto simp: event_timer_names_def daily_name_not_reminder)
qed

lemma names_event_timer_jobs: "map job_name (event_timer_jobs u e now fr) = event_timer_names u e now"
  by (simp add: event_timer_jobs_def event_timer_names_def)

lemma schedule_event_jobs_char:
  assumes "schedule_event_jobs jq u e now = (jq1, Inr ())"
  shows "\<exists>fr. jq1 = filter (\<lambda>j. job_name j \<notin> set (event_timer_names u e now)) jq
                      @ event_timer_jobs u e now fr"
proof (cases "event_when e \<le> now")
  case True
  then show ?thesis using assms
    by (simp add: schedule_event_jobs_def event_timer_names_def event_timer_jobs_def)
next
  case False
  obtain fr where fr: "schedule_daily_counter jq u e now =
      (filter (\<lambda>j. job_name j \<noteq> daily_job_name u e) jq @ [daily_job u e fr], Inr ())"
    and rem: "schedule_event_reminders
        (filter (\<lambda>j. job_name j \<noteq> daily_job_name u e) jq @ [daily_job u e fr]) u e now = (jq1, Inr ())"
    using assms False
    by (auto simp: schedule_event_jobs_def schedule_daily_counter_char split: sum.splits if_splits)
  have "offsets_fit e now REMINDER_OFFSETS"
    using rem unfolding schedule_event_reminders_def by (rule loop_ok_valid)
  then have "jq1 = filter (\<lambda>j. job_name j \<notin> reminder_job_name u e ` set (due_offsets e now))
                 (filter (\<lambda>j. job_name j \<noteq> daily_job_name u e) jq @ [daily_job u e fr])
              @ map (reminder_job u e now) (due_offsets e now)"
    using rem by (simp add: schedule_event_reminders_char)
  then have "jq1 = filter (\<lambda>j. job_name j \<notin> set (event_timer_names u e now)) jq
                      @ event_timer_jobs u e now fr"
    using False
    by (auto simp: event_timer_names_def event_timer_jobs_def daily_name_not_reminder
        intro!: filter_cong)
  then show ?thesis ..
qed

lemma schedule_daily_counter_result_indep:
  "snd (schedule_daily_counter jq u e now) = snd (schedule_daily_counter jq' u e now)"
  by (simp add: schedule_daily_counter_char split: sum.splits)

lemma schedule_event_jobs_again:
  assumes "schedule_event_jobs jq u e now = (jq1, Inr ())"
  shows "schedule_event_jobs jq1 u e now = (jq1, Inr ())"
proof (cases "event_when e \<le> now")
  case True
  then show ?thesis using assms by (simp add: schedule_event_jobs_def)
next
  case False
  obtain fr where fr: "schedule_daily_counter jq u e now =
      (filter (\<lambda>j. job_name j \<noteq> daily_job_name u e) jq @ [daily_job u e fr], Inr ())"
    and rem: "schedule_event_reminders
        (filter (\<lambda>j. job_name j \<noteq> daily_job_name u e) jq @ [daily_job u e fr]) u e now = (jq1, Inr ())"
    using assms False
    by (auto simp: schedule_event_jobs_def schedule_daily_counter_char split: sum.splits if_splits)
  have valid: "offsets_fit e now REMINDER_OFFSETS"
    using rem unfolding schedule_event_reminders_def by (rule loop_ok_valid)
  have jq1: "jq1 = filter (\<lambda>j. job_name j \<notin> reminder_job_name u e ` set (due_offsets e now))
                 (filter (\<lambda>j. job_name j \<noteq> daily_job_name u e) jq @ [daily_job u e fr])
              @ map (reminder_job u e now) (due_offsets e now)"
    using rem valid by (simp add: schedule_event_reminders_char)
  have d2: "schedule_daily_counter jq1 u e now =
      (filter (\<lambda>j. job_name j \<noteq> daily_job_name u e) jq1 @ [daily_job u e fr], Inr ())"
    using fr by (auto simp: schedule_daily_counter_char split: sum.splits if_splits)
  have "schedule_event_jobs jq1 u e now =
      (filter (\<lambda>j. job_name j \<notin> reminder_job_name u e ` set (due_offsets e now))
         (filter (\<lambda>j. job_name j \<noteq> daily_job_name u e) jq1 @ [daily_job u e fr])
        @ map (reminder_job u e now) (due_offsets e now), Inr ())"
    using False d2 valid by (simp add: schedule_event_jobs_def schedule_event_reminders_char)
  also have "filter (\<lambda>j. job_name j \<notin> reminder_job_name u e ` set (due_offsets e now))
         (filter (\<lambda>j. job_name j \<noteq> daily_job_name u e) jq1 @ [daily_job u e fr])
        @ map (reminder_job u e now) (due_offsets e now) = jq1"
    unfolding jq1 by (auto simp: daily_name_not_reminder filter_empty_conv intro!: filter_cong)
  finally show ?thesis .
qed

lemma length_filter_key_distinct:
  "distinct (map f xs) \<Longrightarrow> n \<in> f ` set xs \<Longrightarrow> length (filter (\<lambda>x. f x = n) xs) = 1"
proof (induction xs)
  case Nil
  then show ?case by simp
next
  case (Cons x xs)
  show ?case
  proof (cases "f x = n")
    case True
    have "f x \<notin> f ` set xs" using Cons.prems(1) by simp
    then have "\<forall>y \<in> set xs. f y \<noteq> n" using True by (metis imageI)
    then have "filter (\<lambda>x. f x = n) xs = []"
      by (simp add: filter_empty_conv)
    then show ?thesis using True by simp
  next
    case False
    then show ?thesis using Cons by auto
  qed
qed

section \<open>Auxiliary facts about the calendar\<close>

lemma dby_cycles:
  assumes "0 \<le> b" "b \<le> 3" "0 \<le> c" "c \<le> 24" "0 \<le> d" "d \<le> 3"
  shows "days_before_year (a * 400 + 1 + b * 100 + c * 4 + d)
           = 146097 * a + 36524 * b + 1461 * c + 365 * d"
proof -
  define y where "y = a * 400 + b * 100 + c * 4 + d"
  have d4: "y div 4 = 100 * a + 25 * b + c"
    by (rule int_div_pos_eq [where r = d]) (use assms in \<open>simp_all add: y_def\<close>)
  have d100: "y div 100 = 4 * a + b"
    by (rule int_div_pos_eq [where r = "c * 4 + d"]) (use assms in \<open>simp_all add: y_def\<close>)
  have d400: "y div 400 = a"
    by (rule int_div_pos_eq [where r = "b * 100 + c * 4 + d"]) (use assms in \<open>simp_all add: y_def\<close>)
  have arg: "a * 400 + 1 + b * 100 + c * 4 + d = y + 1" unfolding y_def by simp
  have "days_before_year (y + 1) = y * 365 + y div 4 - y div 100 + y div 400"
    by (simp add: days_before_year_def)
  also have "\<dots> = 146097 * a + 36524 * b + 1461 * c + 365 * d"
    unfolding d4 d100 d400 unfolding y_def by simp
  finally show ?thesis unfolding arg .
qed

lemma is_leap_cycles:
  assumes "0 \<le> b" "b \<le> 3" "0 \<le> c" "c \<le> 24" "0 \<le> d" "d \<le> 3"
  shows "is_leap (a * 400 + 1 + b * 100 + c * 4 + d) = (d = 3 \<and> (c \<noteq> 24 \<or> b = 3))"
proof -
  define y where "y = a * 400 + 1 + b * 100 + c * 4 + d"
  have m4: "y mod 4 = (d + 1) mod 4"
  proof -
    have "y = (d + 1) + 4 * (100 * a + 25 * b + c)" unfolding y_def by simp
    then show ?thesis by (metis mod_mult_self2)
  qed
  have m100: "y mod 100 = (c * 4 + d + 1) mod 100"
  proof -
    have "y = (c * 4 + d + 1) + 100 * (4 * a + b)" unfolding y_def by simp
    then show ?thesis by (metis mod_mult_self2)
  qed
  have m400: "y mod 400 = (b * 100 + c * 4 + d + 1) mod 400"
  proof -
    have "y = (b * 100 + c * 4 + d + 1) + 400 * a" unfolding y_def by simp
    then show ?thesis by (metis mod_mult_self2)
  qed
  have e4: "((d + 1) mod 4 = 0) = (d = 3)" using assms by presburger
  have e100: "((c * 4 + d + 1) mod 100 = 0) = (c = 24 \<and> d = 3)"
  proof (cases "c * 4 + d + 1 = 100")
    case True
    then have "c = 24 \<and> d = 3" using assms by linarith
    then show ?thesis by simp
  next
    case False
    then have "0 < c * 4 + d + 1 \<and> c * 4 + d + 1 < 100" using assms by linarith
    then have "(c * 4 + d + 1) mod 100 = c * 4 + d + 1" by simp
    then show ?thesis using False assms by auto
  qed
  have e400: "((b * 100 + c * 4 + d + 1) mod 400 = 0) = (b = 3 \<and> c = 24 \<and> d = 3)"
  proof (cases "b * 100 + c * 4 + d + 1 = 400")
    case True
    then have "b = 3 \<and> c = 24 \<and> d = 3" using assms by linarith
    then show ?thesis by simp
  next
    case False
    then have "0 < b * 100 + c * 4 + d + 1 \<and> b * 100 + c * 4 + d + 1 < 400" using assms by linarith
    then have "(b * 100 + c * 4 + d + 1) mod 400 = b * 100 + c * 4 + d + 1" by simp
    then show ?thesis using False assms by auto
  qed
  show ?thesis
    unfolding is_leap_def y_def [symmetric] m4 m100 m400 e4 e100 e400 by auto
qed

lemma month_day:
  fixes r :: int and L :: bool
  assumes "0 \<le> r" "r < 365"
  defines "month \<equiv> (r + 50) div 32"
  defines "preceding \<equiv> days_before_month_tab month + (if month > 2 \<and> L then 1 else 0)"
  defines "res \<equiv> (if preceding > r
                  then (month - 1,
                        r - (preceding - (days_in_month_tab (month - 1)
                                           + (if month - 1 = 2 \<and> L then 1 else 0))) + 1)
                  else (month, r - preceding + 1))"
  shows "1 \<le> fst res \<and> fst res \<le> 12 \<and> 1 \<le> snd res \<and>
         snd res \<le> days_in_month_tab (fst res) + (if fst res = 2 \<and> L then 1 else 0) \<and>
         days_before_month_tab (fst res) + (if fst res > 2 \<and> L then 1 else 0) + snd res = r + 1"
proof -
  have dm: "r + 50 = 32 * month + (r + 50) mod 32"
    unfolding month_def by simp
  have "0 \<le> (r + 50) mod 32 \<and> (r + 50) mod 32 < 32" by simp
  then have lo: "32 * month \<le> r + 50" and hi: "r + 50 < 32 * month + 32"
    using dm by linarith+
  have "1 \<le> month \<and> month \<le> 12" using lo hi assms(1,2) by linarith
  then have cases: "month = 1 \<or> month = 2 \<or> month = 3 \<or> month = 4 \<or> month = 5 \<or> month = 6 \<or>
      month = 7 \<or> month = 8 \<or> month = 9 \<or> month = 10 \<or> month = 11 \<or> month = 12"
    by presburger
  show ?thesis
    using cases lo hi assms(1,2) unfolding res_def preceding_def
    by (cases L; elim disjE; simp add: days_before_month_tab_def days_in_month_tab_def)
qed

lemma ord2ymd_correct:
  assumes "1 \<le> n" and "ord2ymd n = (y, m, dd)"
  shows "1 \<le> y \<and> 1 \<le> m \<and> m \<le> 12 \<and> 1 \<le> dd \<and> dd \<le> days_in_month y m \<and> ymd2ord y m dd = n"
proof -
  define n0 where "n0 = n - 1"
  define a where "a = n0 div 146097"
  define r400 where "r400 = n0 mod 146097"
  define b where "b = r400 div 36524"
  define r100 where "r100 = r400 mod 36524"
  define c where "c = r100 div 1461"
  define r4 where "r4 = r100 mod 1461"
  define d where "d = r4 div 365"
  define r1 where "r1 = r4 mod 365"
  define year where "year = a * 400 + 1 + b * 100 + c * 4 + d"
  have n0: "0 \<le> n0" using assms(1) by (simp add: n0_def)
  have e1: "n0 = 146097 * a + r400" unfolding a_def r400_def by simp
  have b1: "0 \<le> r400 \<and> r400 < 146097" unfolding r400_def by simp
  have e2: "r400 = 36524 * b + r100" unfolding b_def r100_def by simp
  have b2: "0 \<le> r100 \<and> r100 < 36524" unfolding r100_def by simp
  have e3: "r100 = 1461 * c + r4" unfolding c_def r4_def by simp
  have b3: "0 \<le> r4 \<and> r4 < 1461" unfolding r4_def by simp
  have e4: "r4 = 365 * d + r1" unfolding d_def r1_def by simp
  have b4: "0 \<le> r1 \<and> r1 < 365" unfolding r1_def by simp
  have a0: "0 \<le> a" unfolding a_def using n0 by (simp add: pos_imp_zdiv_nonneg_iff)
  have bb: "0 \<le> b \<and> b \<le> 4" using e2 b1 b2 by linarith
  have cc: "0 \<le> c \<and> c \<le> 24" using e3 b2 b3 by linarith
  have dd: "0 \<le> d \<and> d \<le> 4" using e4 b3 b4 by linarith
  have total: "n0 = 146097 * a + 36524 * b + 1461 * c + 365 * d + r1"
    using e1 e2 e3 e4 by linarith
  have unf: "ord2ymd n =
      (if d = 4 \<or> b = 4 then (year - 1, 12, 31)
       else
         (let leapyear = (d = 3 \<and> (c \<noteq> 24 \<or> b = 3));
              month = (r1 + 50) div 32;
              preceding = days_before_month_tab month + (if month > 2 \<and> leapyear then 1 else 0)
          in if preceding > r1
             then (year, month - 1,
                   r1 - (preceding - (days_in_month_tab (month - 1)
                                       + (if month - 1 = 2 \<and> leapyear then 1 else 0))) + 1)
             else (year, month, r1 - preceding + 1)))"
    unfolding ord2ymd_def year_def d_def r1_def r4_def c_def r100_def b_def r400_def a_def n0_def
    by (simp only: Let_def)
  show ?thesis
  proof (cases "d = 4 \<or> b = 4")
    case True
    then have res: "y = year - 1" "m = 12" "dd = 31" using unf assms(2) by simp_all
    show ?thesis
    proof (cases "b = 4")
      case True
      then have z: "c = 0" "d = 0" "r1 = 0" using e2 e3 e4 b1 b2 b3 b4 cc dd by linarith+
      have yy: "year - 1 = (a + 1) * 400" unfolding year_def using True z by simp
      have "days_before_year ((a + 1) * 400) = 146097 * a + 36524 * 3 + 1461 * 24 + 365 * 3"
        using dby_cycles [of 3 24 3 a] by (simp add: algebra_simps)
      moreover have "is_leap ((a + 1) * 400)"
        using is_leap_cycles [of 3 24 3 a] by (simp add: algebra_simps)
      ultimately show ?thesis
        using res yy total True z a0
        by (simp add: ymd2ord_def days_before_month_def days_before_month_tab_def
            days_in_month_def n0_def)
    next
      case False
      then have d4: "d = 4" using True by simp
      have z: "r1 = 0" using e4 b3 b4 d4 by linarith
      have b3': "0 \<le> b \<and> b \<le> 3" using bb False by linarith
      have yy: "year - 1 = a * 400 + 1 + b * 100 + c * 4 + 3" unfolding year_def using d4 by simp
      have "days_before_year (a * 400 + 1 + b * 100 + c * 4 + 3)
          = 146097 * a + 36524 * b + 1461 * c + 365 * 3"
        using dby_cycles [of b c 3 a] b3' cc by simp
      moreover have "is_leap (a * 400 + 1 + b * 100 + c * 4 + 3) = (c \<noteq> 24 \<or> b = 3)"
        using is_leap_cycles [of b c 3 a] b3' cc by simp
      moreover have "c \<noteq> 24 \<or> b = 3"
      proof (rule ccontr)
        assume "\<not> (c \<noteq> 24 \<or> b = 3)"
        then have "c = 24" by simp
        then show False using e3 e4 b2 d4 b4 by linarith
      qed
      ultimately show ?thesis
        using res yy total d4 z a0 b3' cc
        by (simp add: ymd2ord_def days_before_month_def days_before_month_tab_def
            days_in_month_def n0_def)
    qed
  next
    case False
    then have b3': "0 \<le> b \<and> b \<le> 3" and d3': "0 \<le> d \<and> d \<le> 3" using bb dd by linarith+
    define L where "L = (d = 3 \<and> (c \<noteq> 24 \<or> b = 3))"
    define month where "month = (r1 + 50) div 32"
    define preceding where "preceding = days_before_month_tab month + (if month > 2 \<and> L then 1 else 0)"
    define res where "res = (if preceding > r1
                  then (month - 1,
                        r1 - (preceding - (days_in_month_tab (month - 1)
                                           + (if month - 1 = 2 \<and> L then 1 else 0))) + 1)
                  else (month, r1 - preceding + 1))"
    have md: "1 \<le> fst res \<and> fst res \<le> 12 \<and> 1 \<le> snd res \<and>
         snd res \<le> days_in_month_tab (fst res) + (if fst res = 2 \<and> L then 1 else 0) \<and>
         days_before_month_tab (fst res) + (if fst res > 2 \<and> L then 1 else 0) + snd res = r1 + 1"
      unfolding res_def preceding_def month_def using month_day [of r1 L] b4 by simp
    have "ord2ymd n = (year, fst res, snd res)"
      unfolding unf using False
      by (simp add: Let_def res_def preceding_def month_def L_def)
    then have r: "y = year" "m = fst res" "dd = snd res" using assms(2) by auto
    have dby: "days_before_year year = 146097 * a + 36524 * b + 1461 * c + 365 * d"
      unfolding year_def using dby_cycles [of b c d a] b3' cc d3' by simp
    have leap: "is_leap year = L"
      unfolding year_def L_def using is_leap_cycles [of b c d a] b3' cc d3' by simp
    have y1: "1 \<le> year" unfolding year_def using a0 b3' cc d3' by linarith
    have dim: "days_in_month year (fst res) = days_in_month_tab (fst res) + (if fst res = 2 \<and> L then 1 else 0)"
      unfolding days_in_month_def days_in_month_tab_def leap by simp
    have "ymd2ord year (fst res) (snd res) = n"
      unfolding ymd2ord_def days_before_month_def leap dby using md total by (simp add: n0_def)
    then show ?thesis using r md y1 dim by simp
  qed
qed


lemma div_succ: "(z + 1) div k = z div k + (if (z + 1) mod k = 0 then 1 else 0)" if "0 < k" for z k :: int
proof (cases "(z + 1) mod k = 0")
  case True
  then have "k dvd z + 1" by (simp add: mod_eq_0_iff_dvd)
  then obtain q where q: "z + 1 = k * q" unfolding dvd_def by blast
  have zq: "z = k * (q - 1) + (k - 1)" using q by (simp add: right_diff_distrib)
  have "z div k = q - 1"
    by (rule int_div_pos_eq [where r = "k - 1"]) (use zq that in simp_all)
  moreover have "(z + 1) div k = q" using q that by simp
  ultimately show ?thesis using True by simp
next
  case False
  have "(z + 1) div k = z div k"
  proof (rule int_div_pos_eq [where r = "z mod k + 1"])
    show "z + 1 = k * (z div k) + (z mod k + 1)" by simp
    show "0 \<le> z mod k + 1" using that by (simp add: add_nonneg_nonneg)
    have "z mod k < k" using that by simp
    moreover have "z mod k + 1 \<noteq> k"
    proof
      assume "z mod k + 1 = k"
      then have "(z + 1) mod k = 0" by (metis mod_add_left_eq mod_self)
      then show False using False by simp
    qed
    ultimately show "z mod k + 1 < k" by linarith
  qed
  then show ?thesis using False by simp
qed

lemma mod_chain: "y mod 400 = 0 \<Longrightarrow> y mod 100 = 0" "y mod 100 = 0 \<Longrightarrow> y mod 4 = 0" for y :: int
proof -
  have "(100::int) dvd 400" "(4::int) dvd 100" by simp_all
  then show "y mod 400 = 0 \<Longrightarrow> y mod 100 = 0" "y mod 100 = 0 \<Longrightarrow> y mod 4 = 0"
    by (meson dvd_trans mod_eq_0_iff_dvd)+
qed

lemma dby_step: "days_before_year (y + 1) = days_before_year y + (if is_leap y then 366 else 365)"
proof -
  have d4: "y div 4 = (y - 1) div 4 + (if y mod 4 = 0 then 1 else 0)"
    using div_succ [of 4 "y - 1"] by simp
  have d100: "y div 100 = (y - 1) div 100 + (if y mod 100 = 0 then 1 else 0)"
    using div_succ [of 100 "y - 1"] by simp
  have d400: "y div 400 = (y - 1) div 400 + (if y mod 400 = 0 then 1 else 0)"
    using div_succ [of 400 "y - 1"] by simp
  have e: "days_before_year (y + 1) = y * 365 + y div 4 - y div 100 + y div 400"
    by (simp add: days_before_year_def)
  have f: "days_before_year y = (y - 1) * 365 + (y - 1) div 4 - (y - 1) div 100 + (y - 1) div 400"
    by (simp add: days_before_year_def Let_def)
  define A where "A = (y - 1) div 4"
  define B where "B = (y - 1) div 100"
  define C where "C = (y - 1) div 400"
  show ?thesis
  proof (cases "y mod 4 = 0")
    case m4: True
    show ?thesis
    proof (cases "y mod 100 = 0")
      case m100: True
      show ?thesis
      proof (cases "y mod 400 = 0")
        case True
        then show ?thesis unfolding e f d4 d100 d400 is_leap_def using m4 m100
          by (simp add: left_diff_distrib)
      next
        case False
        then show ?thesis unfolding e f d4 d100 d400 is_leap_def using m4 m100
          by (simp add: left_diff_distrib)
      qed
    next
      case False
      then have "y mod 400 \<noteq> 0" using mod_chain(1) [of y] by auto
      then show ?thesis unfolding e f d4 d100 d400 is_leap_def using m4 False
        by (simp add: left_diff_distrib)
    qed
  next
    case False
    then have "y mod 100 \<noteq> 0" using mod_chain(2) [of y] by auto
    moreover from this have "y mod 400 \<noteq> 0" using mod_chain(1) [of y] by auto
    ultimately show ?thesis unfolding e f d4 d100 d400 is_leap_def using False
      by (simp add: left_diff_distrib)
  qed
qed

lemma dby_mono_aux: "days_before_year y \<le> days_before_year (y + int k)"
proof (induction k)
  case 0
  then show ?case by simp
next
  case (Suc k)
  have "days_before_year (y + int k) \<le> days_before_year (y + int k + 1)"
    unfolding dby_step by simp
  then show ?case using Suc by (simp add: algebra_simps)
qed

lemma dby_mono: "y \<le> y' \<Longrightarrow> days_before_year y \<le> days_before_year y'"
  using dby_mono_aux [of y "nat (y' - y)"] by simp

lemma dby_10000: "days_before_year 10000 = 3652059"
  by (simp add: days_before_year_def)

lemma dby_1: "days_before_year 1 = 0"
  by (simp add: days_before_year_def)

lemma dbm_day_bounds:
  assumes "1 \<le> m" "m \<le> 12" "1 \<le> d" "d \<le> days_in_month y m"
  shows "1 \<le> days_before_month y m + d \<and>
         days_before_month y m + d \<le> (if is_leap y then 366 else 365)"
proof -
  have cases: "m = 1 \<or> m = 2 \<or> m = 3 \<or> m = 4 \<or> m = 5 \<or> m = 6 \<or>
      m = 7 \<or> m = 8 \<or> m = 9 \<or> m = 10 \<or> m = 11 \<or> m = 12"
    using assms(1,2) by presburger
  show ?thesis
    using cases assms(3,4) unfolding days_before_month_def days_in_month_def
    by (cases "is_leap y"; elim disjE; simp add: days_before_month_tab_def)
qed

lemma ymd2ord_bounds:
  assumes "valid_ymd y m d"
  shows "1 \<le> ymd2ord y m d \<and> ymd2ord y m d \<le> MAXORDINAL"
proof -
  have v: "1 \<le> y" "y \<le> 9999" "1 \<le> m" "m \<le> 12" "1 \<le> d" "d \<le> days_in_month y m"
    using assms by (simp_all add: valid_ymd_def)
  have b: "1 \<le> days_before_month y m + d \<and>
         days_before_month y m + d \<le> (if is_leap y then 366 else 365)"
    using dbm_day_bounds [OF v(3-6)] .
  have lo: "0 \<le> days_before_year y" using dby_mono [OF v(1)] dby_1 by simp
  have "days_before_year (y + 1) \<le> days_before_year 10000"
    by (rule dby_mono) (use v(2) in simp)
  then have hi: "days_before_year y + (if is_leap y then 366 else 365) \<le> 3652059"
    unfolding dby_step dby_10000 .
  show ?thesis
    unfolding ymd2ord_def MAXORDINAL_def using b lo hi by (auto split: if_splits)
qed

lemma ord2ymd_valid:
  assumes "1 \<le> n" "n \<le> MAXORDINAL" "ord2ymd n = (y, m, d)"
  shows "valid_ymd y m d \<and> ymd2ord y m d = n"
proof -
  have c: "1 \<le> y \<and> 1 \<le> m \<and> m \<le> 12 \<and> 1 \<le> d \<and> d \<le> days_in_month y m \<and> ymd2ord y m d = n"
    using ord2ymd_correct [OF assms(1,3)] .
  have "y \<le> 9999"
  proof (rule ccontr)
    assume "\<not> y \<le> 9999"
    then have "10000 \<le> y" by simp
    then have "3652059 \<le> days_before_year y" using dby_mono [of 10000 y] dby_10000 by simp
    moreover have "1 \<le> days_before_month y m + d"
      using dbm_day_bounds [of m d y] c by simp
    ultimately have "3652060 \<le> ymd2ord y m d" unfolding ymd2ord_def by linarith
    then show False using c assms(2) by (simp add: MAXORDINAL_def)
  qed
  then show ?thesis using c by (simp add: valid_ymd_def)
qed

lemma digit_val_digit_char: "k < 10 \<Longrightarrow> digit_val (digit_char k) = Some k"
proof -
  assume "k < 10"
  then have "k = 0 \<or> k = 1 \<or> k = 2 \<or> k = 3 \<or> k = 4 \<or> k = 5 \<or> k = 6 \<or> k = 7 \<or> k = 8 \<or> k = 9"
    by presburger
  then show ?thesis
    by (elim disjE; simp add: digit_val_def digit_char_def)
qed

lemma length_pad_digits [simp]: "length (pad_digits w n) = w"
  by (induction w arbitrary: n) simp_all

lemma parse_digits_snoc:
  "parse_digits acc (cs @ [c]) =
     (case parse_digits acc cs of
        None \<Rightarrow> None
      | Some a \<Rightarrow> (case digit_val c of None \<Rightarrow> None | Some d \<Rightarrow> Some (a * 10 + d)))"
  by (induction cs arbitrary: acc) (simp_all split: option.splits)

lemma parse_pad_digits: "n < 10 ^ w \<Longrightarrow> parse_digits 0 (pad_digits w n) = Some n"
proof (induction w arbitrary: n)
  case 0
  then show ?case by simp
next
  case (Suc w)
  have "n div 10 < 10 ^ w" using Suc.prems by (simp add: less_mult_imp_div_less mult.commute)
  then have "parse_digits 0 (pad_digits w (n div 10)) = Some (n div 10)" by (rule Suc.IH)
  then show ?case
    by (simp add: parse_digits_snoc digit_val_digit_char)
qed

lemma time_fields:
  fixes tod :: int
  assumes "0 \<le> tod" "tod < 86400000000"
  defines "hour \<equiv> tod div 3600000000"
  defines "minute \<equiv> (tod div 60000000) mod 60"
  defines "second \<equiv> (tod div 1000000) mod 60"
  defines "us \<equiv> tod mod 1000000"
  shows "0 \<le> hour \<and> hour < 24 \<and> 0 \<le> minute \<and> minute < 60 \<and> 0 \<le> second \<and> second < 60 \<and>
         0 \<le> us \<and> us < 1000000 \<and> ((hour * 60 + minute) * 60 + second) * 1000000 + us = tod"
proof -
  define S where "S = tod div 1000000"
  define M where "M = S div 60"
  have m: "tod div 60000000 = M"
    unfolding M_def S_def using zdiv_zmult2_eq [of 60 tod 1000000] by simp
  have h: "tod div 3600000000 = M div 60"
    unfolding m [symmetric] using zdiv_zmult2_eq [of 60 tod 60000000] by simp
  have t: "tod = S * 1000000 + us" unfolding S_def us_def by simp
  have s: "S = M * 60 + second" unfolding M_def second_def S_def by simp
  have mm: "M = hour * 60 + minute" unfolding hour_def minute_def h m by simp
  have "hour < 24" unfolding hour_def using assms(2) by (simp add: div_less_iff_less_mult)
  moreover have "0 \<le> hour" unfolding hour_def using assms(1) by (simp add: pos_imp_zdiv_nonneg_iff)
  moreover have "0 \<le> minute \<and> minute < 60" unfolding minute_def by simp
  moreover have "0 \<le> second \<and> second < 60" unfolding second_def by simp
  moreover have "0 \<le> us \<and> us < 1000000" unfolding us_def by simp
  moreover have "((hour * 60 + minute) * 60 + second) * 1000000 + us = tod"
    using t s mm by simp
  ultimately show ?thesis by simp
qed

lemma combine_date_time: "combine (date_of t) (time_of t) = t"
  by (simp add: combine_def date_of_def time_of_def)

lemma valid_datetime_date:
  assumes "valid_datetime t"
  shows "1 \<le> date_of t \<and> date_of t \<le> MAXORDINAL"
proof -
  have "0 \<le> t div US_PER_DAY"
    using assms by (simp add: valid_datetime_def US_PER_DAY_def pos_imp_zdiv_nonneg_iff)
  moreover have "t div US_PER_DAY < MAXORDINAL"
  proof -
    have "t < MAXORDINAL * 86400000000"
      using assms by (simp add: valid_datetime_def US_PER_DAY_def)
    then have "t div 86400000000 < MAXORDINAL" by (simp add: div_less_iff_less_mult)
    then show ?thesis by (simp add: US_PER_DAY_def)
  qed
  ultimately show ?thesis by (simp add: date_of_def)
qed

lemma time_of_range: "0 \<le> time_of t \<and> time_of t < 86400000000"
  by (simp add: time_of_def US_PER_DAY_def)

lemma fromisoformat_shape:
  assumes "length Y = 4" "length Mo = 2" "length D = 2" "length H = 2" "length Mi = 2"
    "length S = 2" "length U = 6"
    and "parse_digits 0 Y = Some year" "parse_digits 0 Mo = Some month"
    "parse_digits 0 D = Some day" "parse_digits 0 H = Some hour"
    "parse_digits 0 Mi = Some minute" "parse_digits 0 S = Some second"
    "(if b then parse_digits 0 U else Some 0) = Some us" "hour \<noteq> 24"
  shows "fromisoformat (Y @ ''-'' @ Mo @ ''-'' @ D @ ''T'' @ H @ '':'' @ Mi @ '':'' @ S
                          @ (if b then ''.'' @ U else [])) =
         mk_datetime (int year) (int month) (int day) (int hour) (int minute) (int second) (int us)"
proof (cases b)
  case True
  then show ?thesis using assms
    by (simp add: fromisoformat_def field_def nth_append)
next
  case False
  then show ?thesis using assms
    by (simp add: fromisoformat_def field_def nth_append)
qed

lemma parse_pad_int:
  assumes "0 \<le> x" "x < 10 ^ w"
  shows "parse_digits 0 (pad_digits w (nat x)) = Some (nat x)"
proof (rule parse_pad_digits)
  have "int (nat x) < int (10 ^ w)" using assms by simp
  then show "nat x < 10 ^ w" by (simp only: of_nat_less_iff)
qed

lemma fromisoformat_isoformat:
  assumes "valid_datetime t"
  shows "fromisoformat (isoformat t) = Inr t"
proof -
  obtain y m d where o: "ord2ymd (date_of t) = (y, m, d)" by (cases "ord2ymd (date_of t)") auto
  have dr: "1 \<le> date_of t \<and> date_of t \<le> MAXORDINAL" using assms by (rule valid_datetime_date)
  have v: "valid_ymd y m d" and ord: "ymd2ord y m d = date_of t"
    using ord2ymd_valid [of "date_of t" y m d] dr o by simp_all
  define tod where "tod = time_of t"
  define hour where "hour = tod div 3600000000"
  define minute where "minute = (tod div 60000000) mod 60"
  define second where "second = (tod div 1000000) mod 60"
  define us where "us = tod mod 1000000"
  have tf: "0 \<le> hour \<and> hour < 24 \<and> 0 \<le> minute \<and> minute < 60 \<and> 0 \<le> second \<and> second < 60 \<and>
         0 \<le> us \<and> us < 1000000 \<and> ((hour * 60 + minute) * 60 + second) * 1000000 + us = tod"
    unfolding hour_def minute_def second_def us_def
    using time_fields [of tod] time_of_range [of t] by (simp add: tod_def)
  have iso: "isoformat t =
      pad_digits 4 (nat y) @ ''-'' @ pad_digits 2 (nat m) @ ''-'' @ pad_digits 2 (nat d)
        @ ''T'' @ pad_digits 2 (nat hour) @ '':'' @ pad_digits 2 (nat minute) @ '':''
        @ pad_digits 2 (nat second) @ (if us \<noteq> 0 then ''.'' @ pad_digits 6 (nat us) else [])"
    unfolding isoformat_def o hour_def minute_def second_def us_def tod_def
    by (simp add: Let_def US_PER_SECOND_def)
  have yb: "1 \<le> y \<and> y \<le> 9999" "1 \<le> m \<and> m \<le> 12" "1 \<le> d \<and> d \<le> 31"
    using v by (auto simp: valid_ymd_def days_in_month_def split: if_splits)
  have py: "parse_digits 0 (pad_digits 4 (nat y)) = Some (nat y)"
    by (rule parse_pad_int) (use yb in simp_all)
  have pm: "parse_digits 0 (pad_digits 2 (nat m)) = Some (nat m)"
    by (rule parse_pad_int) (use yb in simp_all)
  have pd: "parse_digits 0 (pad_digits 2 (nat d)) = Some (nat d)"
    by (rule parse_pad_int) (use yb in simp_all)
  have ph: "parse_digits 0 (pad_digits 2 (nat hour)) = Some (nat hour)"
    by (rule parse_pad_int) (use tf in simp_all)
  have pmi: "parse_digits 0 (pad_digits 2 (nat minute)) = Some (nat minute)"
    by (rule parse_pad_int) (use tf in simp_all)
  have ps: "parse_digits 0 (pad_digits 2 (nat second)) = Some (nat second)"
    by (rule parse_pad_int) (use tf in simp_all)
  have pu: "parse_digits 0 (pad_digits 6 (nat us)) = Some (nat us)"
    by (rule parse_pad_int) (use tf in simp_all)
  have mk: "mk_datetime y m d hour minute second us = Inr t"
  proof -
    have "mk_datetime y m d hour minute second us =
        Inr (combine (ymd2ord y m d) (((hour * 60 + minute) * 60 + second) * US_PER_SECOND + us))"
      using v tf by (simp add: mk_datetime_def US_PER_SECOND_def)
    also have "((hour * 60 + minute) * 60 + second) * US_PER_SECOND + us = time_of t"
      using tf by (simp add: US_PER_SECOND_def tod_def)
    finally show ?thesis unfolding ord by (simp add: combine_date_time)
  qed
  have "fromisoformat (isoformat t) =
      mk_datetime (int (nat y)) (int (nat m)) (int (nat d)) (int (nat hour)) (int (nat minute))
        (int (nat second)) (int (if us \<noteq> 0 then nat us else 0))"
    unfolding iso
  proof (rule fromisoformat_shape)
    show "(if us \<noteq> 0 then parse_digits 0 (pad_digits 6 (nat us)) else Some 0)
            = Some (if us \<noteq> 0 then nat us else 0)"
      by (simp add: pu)
    have "hour < 24" using tf by simp
    then show "nat hour \<noteq> 24" by linarith
  qed (simp_all add: py pm pd ph pmi ps)
  also have "\<dots> = mk_datetime y m d hour minute second us"
    using yb tf by simp
  finally show ?thesis using mk by simp
qed

lemma fromisoformat_valid:
  assumes "fromisoformat s = Inr t"
  shows "valid_datetime t"
proof -
  obtain y m d h mi se us where mk: "mk_datetime y m d h mi se us = Inr t"
    using assms unfolding fromisoformat_def
    by (auto split: if_splits option.splits prod.splits)
  then have v: "valid_ymd y m d" "0 \<le> h" "h < 24" "0 \<le> mi" "mi < 60" "0 \<le> se" "se < 60"
      "0 \<le> us" "us < US_PER_SECOND"
    and t: "t = combine (ymd2ord y m d) (((h * 60 + mi) * 60 + se) * US_PER_SECOND + us)"
    by (auto simp: mk_datetime_def split: if_splits)
  define tod where "tod = ((h * 60 + mi) * 60 + se) * US_PER_SECOND + us"
  have r: "0 \<le> tod \<and> tod < US_PER_DAY"
  proof -
    have "(h * 60 + mi) * 60 + se \<le> 86399" using v by (simp add: algebra_simps)
    moreover have "0 \<le> (h * 60 + mi) * 60 + se" using v by simp
    ultimately show ?thesis
      unfolding tod_def using v(8,9) by (simp add: US_PER_SECOND_def US_PER_DAY_def)
  qed
  have o: "1 \<le> ymd2ord y m d \<and> ymd2ord y m d \<le> MAXORDINAL" using v(1) by (rule ymd2ord_bounds)
  define A where "A = (ymd2ord y m d - 1) * US_PER_DAY"
  define B where "B = (MAXORDINAL - 1) * US_PER_DAY"
  have "0 \<le> A" unfolding A_def using o by (simp add: US_PER_DAY_def)
  moreover have "A \<le> B"
    unfolding A_def B_def using o by (simp add: US_PER_DAY_def)
  moreover have "MAXORDINAL * US_PER_DAY = B + US_PER_DAY"
    unfolding B_def by (simp add: algebra_simps)
  moreover have "t = A + tod" unfolding t tod_def A_def combine_def by simp
  ultimately show ?thesis
    unfolding valid_datetime_def using r by linarith
qed

lemma from_dict_to_dict:
  assumes "valid_datetime (event_when e)"
  shows "from_dict (to_dict e) = Inr e"
  using fromisoformat_isoformat [OF assms]
  by (simp add: from_dict_def to_dict_def getitem_def)

lemma pad_digits_2: "pad_digits 2 n = [digit_char (n div 10 mod 10), digit_char (n mod 10)]"
proof -
  have "pad_digits (Suc (Suc 0)) n = [digit_char (n div 10 mod 10), digit_char (n mod 10)]"
    by simp
  then show ?thesis by (simp only: numeral_2_eq_2)
qed

lemma pad_digits_4:
  "pad_digits 4 n = [digit_char (n div 10 div 10 div 10 mod 10), digit_char (n div 10 div 10 mod 10),
                     digit_char (n div 10 mod 10), digit_char (n mod 10)]"
proof -
  have "pad_digits (Suc (Suc (Suc (Suc 0)))) n =
      [digit_char (n div 10 div 10 div 10 mod 10), digit_char (n div 10 div 10 mod 10),
       digit_char (n div 10 mod 10), digit_char (n mod 10)]"
    by simp
  moreover have eq: "(4::nat) = Suc (Suc (Suc (Suc 0)))" by simp
  ultimately show ?thesis by (simp only: eq)
qed

lemma pad_digits_6:
  "pad_digits 6 n = [digit_char (n div 10 div 10 div 10 div 10 div 10 mod 10), digit_char (n div 10 div 10 div 10 div 10 mod 10),
                     digit_char (n div 10 div 10 div 10 mod 10), digit_char (n div 10 div 10 mod 10),
                     digit_char (n div 10 mod 10), digit_char (n mod 10)]"
proof -
  have "pad_digits (Suc (Suc (Suc (Suc (Suc (Suc 0)))))) n =
      [digit_char (n div 10 div 10 div 10 div 10 div 10 mod 10), digit_char (n div 10 div 10 div 10 div 10 mod 10),
       digit_char (n div 10 div 10 div 10 mod 10), digit_char (n div 10 div 10 mod 10),
       digit_char (n div 10 mod 10), digit_char (n mod 10)]"
    by simp
  moreover have eq: "(6::nat) = Suc (Suc (Suc (Suc (Suc (Suc 0)))))" by simp
  ultimately show ?thesis by (simp only: eq)
qed

lemma example_event_valid: "valid_datetime (event_when example_event)"
  by (simp add: example_event_def cal_defs)

lemma example_event_iso: "isoformat (event_when example_event) = ''2024-12-31T18:00:00''"
  by (simp add: example_event_def isoformat_def ord2ymd_def Let_def cal_defs
      days_in_month_tab_def digit_char_def pad_digits_2 pad_digits_4)

lemma from_dict_valid:
  assumes "from_dict raw = Inr e"
  shows "valid_datetime (event_when e)"
proof -
  obtain s where "fromisoformat s = Inr (event_when e)"
    using assms unfolding from_dict_def
    by (auto split: sum.splits json.splits)
  then show ?thesis by (rule fromisoformat_valid)
qed

section \<open>Auxiliary facts about the store, the callbacks and recovery\<close>

lemma from_dict_all_to_dict:
  "events_valid es \<Longrightarrow> from_dict_all (map to_dict es) = Inr es"
  by (induction es) (simp_all add: events_valid_def from_dict_to_dict)

lemma from_dict_all_valid:
  "from_dict_all items = Inr es \<Longrightarrow> events_valid es"
proof (induction items arbitrary: es)
  case Nil
  then show ?case by (simp add: events_valid_def)
next
  case (Cons item items)
  then show ?case
    by (auto simp: events_valid_def split: sum.splits dest: from_dict_valid)
qed

lemma events_of_items_valid:
  "events_of_items items = Inr es \<Longrightarrow> events_valid es"
  by (cases items) (auto simp: events_of_items_def events_valid_def split: if_splits
      dest: from_dict_all_valid)

lemma read_entries_to_dict:
  "data_valid data \<Longrightarrow>
     read_entries (map (\<lambda>(user_id, items). (user_id, JArr (map to_dict items))) data) = Inr data"
  by (induction data)
    (auto simp: data_valid_def events_of_items_def from_dict_all_to_dict)

lemma read_entries_valid:
  "read_entries members = Inr data \<Longrightarrow> data_valid data"
proof (induction members arbitrary: data)
  case Nil
  then show ?case by (simp add: data_valid_def)
next
  case (Cons member members)
  obtain k items where m: "member = (k, items)" by (cases member)
  show ?case
    using Cons unfolding m
    by (auto simp: data_valid_def split: sum.splits dest: events_of_items_valid)
qed

lemma store_read_valid: "store_read fs p = Inr data \<Longrightarrow> data_valid data"
  by (auto simp: store_read_def data_valid_def split: option.splits file_content.splits json.splits
      dest: read_entries_valid)

lemma store_read_doc:
  "data_valid data \<Longrightarrow> fs p = Some (Doc (raw_of_data data)) \<Longrightarrow> store_read fs p = Inr data"
  by (simp add: store_read_def raw_of_data_def read_entries_to_dict)

lemma store_write_ok:
  "store_write No_fault fs p data =
     (((fs(with_suffix p ''.tmp'' \<mapsto> Doc (raw_of_data data)))(with_suffix p ''.tmp'' := None))
        (p \<mapsto> Doc (raw_of_data data)), Inr ())"
  by (simp add: store_write_def raw_of_data_def Let_def)

lemma store_write_read:
  "data_valid data \<Longrightarrow> store_read (fst (store_write No_fault fs p data)) p = Inr data"
  by (simp add: store_write_ok store_read_doc)

lemma with_suffix_neq: "path_suffix p \<noteq> s \<Longrightarrow> with_suffix p s \<noteq> p"
  by (cases p) (auto simp: with_suffix_def)

lemma store_write_fault:
  assumes "fault \<noteq> No_fault" "path_suffix p \<noteq> ''.tmp''"
  shows "fst (store_write fault fs p data) p = fs p \<and> snd (store_write fault fs p data) = Inl OSError"
  using assms with_suffix_neq [of p "''.tmp''"]
  by (cases fault) (auto simp: store_write_def Let_def)

lemma set_update_cases:
  "(k', v') \<in> set (AList.update k v al) \<Longrightarrow> (k', v') = (k, v) \<or> (k', v') \<in> set al"
  by (induction al) (auto split: if_splits)

lemma data_valid_update:
  assumes "data_valid data" "events_valid es"
  shows "data_valid (AList.update k es data)"
  using assms unfolding data_valid_def list_all_iff
  by (auto dest!: set_update_cases)

lemma events_valid_sort_snoc:
  assumes "events_valid es" "valid_datetime (event_when e)"
  shows "events_valid (sort_key event_when (es @ [e]))"
  using assms unfolding events_valid_def list_all_iff by auto

lemma events_valid_dict_get: "data_valid data \<Longrightarrow> events_valid (dict_get data k)"
  unfolding dict_get_def data_valid_def list_all_iff
  by (auto simp: events_valid_def split: option.splits dest!: map_of_SomeD)

lemma add_event_ok:
  assumes "store_read fs p = Inr data" "valid_datetime (event_when e)"
  shows "store_read (fst (add_event No_fault fs p user_id e)) p =
           Inr (AList.update (str_int user_id)
                  (sort_key event_when (dict_get data (str_int user_id) @ [e])) data) \<and>
         snd (add_event No_fault fs p user_id e) = Inr ()"
proof -
  have dv: "data_valid data" using assms(1) by (rule store_read_valid)
  have "data_valid (AList.update (str_int user_id)
                  (sort_key event_when (dict_get data (str_int user_id) @ [e])) data)"
    by (intro data_valid_update events_valid_sort_snoc events_valid_dict_get dv assms(2))
  then show ?thesis
    using assms(1) by (simp add: add_event_def Let_def store_write_read) (simp add: store_write_ok)
qed

lemma add_event_fault:
  assumes "fault \<noteq> No_fault" "path_suffix p \<noteq> ''.tmp''"
  shows "fst (add_event fault fs p user_id e) p = fs p"
  using store_write_fault [OF assms]
  by (simp add: add_event_def Let_def split: sum.splits)

lemma dict_get_update:
  "dict_get (AList.update k v al) k' = (if k' = k then v else dict_get al k')"
  by (simp add: dict_get_def update_conv')

lemma stored_sorted_update:
  assumes "stored_sorted data" "sorted (map event_when es)"
  shows "stored_sorted (AList.update k es data)"
  using assms unfolding stored_sorted_def list_all_iff
  by (auto dest!: set_update_cases)

lemma create_files:
  "files (fst (create_event_and_schedule fault now new_id user_id chat new_title new_when store w)) =
     fst (add_event fault (files w) store user_id
            \<lparr>event_id = new_id, title = new_title, event_when = new_when, chat_id = chat\<rparr>)"
  by (simp add: create_event_and_schedule_def Let_def split: prod.splits sum.splits)

lemma date_of_mono: "t \<le> t' \<Longrightarrow> date_of t \<le> date_of t'"
  by (simp add: date_of_def US_PER_DAY_def zdiv_mono1)

lemma example_when: "event_when example_event = combine (ymd2ord 2024 12 31) (time_hm 18 0)"
  by (simp add: example_event_def)

lemma load_all_empty_world: "load_all (files empty_world) p = Inr []"
  by (simp add: load_all_def store_read_def empty_world_def)

lemma example_event_fields:
  "\<lparr>event_id = ''e1'', title = ''New Year'', event_when = event_when example_event, chat_id = 42\<rparr>
     = example_event"
  by (simp add: example_event_def)

lemma schedule_event_jobs_past:
  "event_when e \<le> now \<Longrightarrow> schedule_event_jobs jq u e now = (jq, Inr ())"
  by (simp add: schedule_event_jobs_def)

lemma create_past:
  assumes "new_when \<le> now"
  shows "create_event_and_schedule fault now new_id user_id chat new_title new_when store w =
     (case add_event fault (files w) store user_id
             \<lparr>event_id = new_id, title = new_title, event_when = new_when, chat_id = chat\<rparr> of
        (fs, Inl err) \<Rightarrow> (w\<lparr>files := fs\<rparr>, Inl err)
      | (fs, Inr _) \<Rightarrow>
          (w\<lparr>files := fs\<rparr>,
           Inr \<lparr>event_id = new_id, title = new_title, event_when = new_when, chat_id = chat\<rparr>))"
  using assms
  by (simp add: create_event_and_schedule_def Let_def schedule_event_jobs_past
      split: prod.splits sum.splits)

lemma str_int_7: "str_int 7 = ''7''"
  by (simp add: str_int_def nat_digits.simps digit_char_def)

lemma example_past: "event_when example_event \<le> combine (ymd2ord 2025 1 1) (time_hm 9 0)"
  by (simp add: example_event_def cal_defs)

lemma schedule_each_append:
  "schedule_each (xs @ ys) jq now =
     (case schedule_each xs jq now of
        (jq1, Inl err) \<Rightarrow> (jq1, Inl err)
      | (jq1, Inr _) \<Rightarrow> schedule_each ys jq1 now)"
  by (induction xs jq now rule: schedule_each.induct) (auto split: prod.splits sum.splits)

lemma reschedule_events_each:
  "reschedule_events es jq u now = schedule_each (map (Pair u) es) jq now"
proof (induction es arbitrary: jq)
  case Nil
  then show ?case by simp
next
  case (Cons e es)
  show ?case
  proof (cases "now < event_when e")
    case True
    then show ?thesis using Cons by (simp split: prod.splits sum.splits)
  next
    case False
    then have "schedule_event_jobs jq u e now = (jq, Inr ())"
      by (simp add: schedule_event_jobs_past)
    then show ?thesis using False Cons by simp
  qed
qed

lemma reschedule_owners_each:
  "reschedule_owners data jq now = schedule_each (owner_events data) jq now"
proof (induction data arbitrary: jq)
  case Nil
  then show ?case by (simp add: owner_events_def)
next
  case (Cons entry data)
  obtain k es where entry: "entry = (k, es)" by (cases entry)
  show ?case
  proof (cases "py_int k")
    case None
    then show ?thesis using Cons unfolding entry by (simp add: owner_events_def)
  next
    case (Some u)
    have "owner_events ((k, es) # data) = map (Pair u) es @ owner_events data"
      using Some by (simp add: owner_events_def)
    then show ?thesis
      using Some Cons unfolding entry
      by (simp add: schedule_each_append reschedule_events_each split: prod.splits sum.splits)
  qed
qed

lemma schedule_event_jobs_names:
  assumes "schedule_event_jobs jq u e now = (jq1, Inr ())"
  shows "set (map job_name jq1) = set (map job_name jq) \<union> set (event_timer_names u e now)"
proof -
  obtain fr where jq1: "jq1 = filter (\<lambda>j. job_name j \<notin> set (event_timer_names u e now)) jq
                      @ event_timer_jobs u e now fr"
    using schedule_event_jobs_char [OF assms] by blast
  have "set (map job_name jq1) =
      job_name ` {j \<in> set jq. job_name j \<notin> set (event_timer_names u e now)}
        \<union> set (map job_name (event_timer_jobs u e now fr))"
    unfolding jq1 by (simp add: image_Un)
  then show ?thesis unfolding names_event_timer_jobs by auto
qed

lemma schedule_event_jobs_future:
  assumes "schedule_event_jobs jq u e now = (jq1, Inr ())" "j \<in> set jq1"
  shows "j \<in> set jq \<or> now < event_when (job_event j)"
proof -
  obtain fr where jq1: "jq1 = filter (\<lambda>j. job_name j \<notin> set (event_timer_names u e now)) jq
                      @ event_timer_jobs u e now fr"
    using schedule_event_jobs_char [OF assms(1)] by blast
  have "j' \<in> set (event_timer_jobs u e now fr) \<Longrightarrow> now < event_when (job_event j')" for j'
    by (auto simp: event_timer_jobs_def daily_job_def reminder_job_def split: if_splits)
  then show ?thesis using assms(2) unfolding jq1 by auto
qed

lemma schedule_each_names:
  assumes "schedule_each xs jq now = (jq', Inr ())"
  shows "set (map job_name jq) \<subseteq> set (map job_name jq') \<and>
         (\<forall>(u, e) \<in> set xs. set (event_timer_names u e now) \<subseteq> set (map job_name jq'))"
  using assms
proof (induction xs arbitrary: jq)
  case Nil
  then show ?case by simp
next
  case (Cons x xs)
  obtain u e where x: "x = (u, e)" by (cases x)
  obtain jq1 where s1: "schedule_event_jobs jq u e now = (jq1, Inr ())"
    and s2: "schedule_each xs jq1 now = (jq', Inr ())"
    using Cons.prems unfolding x by (auto split: prod.splits sum.splits)
  have n1: "set (map job_name jq1) = set (map job_name jq) \<union> set (event_timer_names u e now)"
    using s1 by (rule schedule_event_jobs_names)
  have ih: "set (map job_name jq1) \<subseteq> set (map job_name jq') \<and>
         (\<forall>(u, e) \<in> set xs. set (event_timer_names u e now) \<subseteq> set (map job_name jq'))"
    using Cons.IH [OF s2] .
  show ?case unfolding x using n1 ih by auto
qed

lemma schedule_each_future:
  assumes "schedule_each xs jq now = (jq', Inr ())" "j \<in> set jq'"
  shows "j \<in> set jq \<or> now < event_when (job_event j)"
  using assms
proof (induction xs arbitrary: jq)
  case Nil
  then show ?case by simp
next
  case (Cons x xs)
  obtain u e where x: "x = (u, e)" by (cases x)
  obtain jq1 where s1: "schedule_event_jobs jq u e now = (jq1, Inr ())"
    and s2: "schedule_each xs jq1 now = (jq', Inr ())"
    using Cons.prems(1) unfolding x by (auto split: prod.splits sum.splits)
  have "j \<in> set jq1 \<or> now < event_when (job_event j)"
    using Cons.IH [OF s2 Cons.prems(2)] .
  then show ?case using schedule_event_jobs_future [OF s1] by auto
qed

lemma float_delay_900: "timedelta_seconds (total_seconds 900000000) = 900000000"
  by (simp add: float_defs)

lemma float_delay_1200: "timedelta_seconds (total_seconds 1200000000) = 1200000000"
  by (simp add: float_defs)








lemma example_schedule:
  "schedule_event_jobs [] 7 example_event (combine (ymd2ord 2024 12 31) (time_hm 17 40)) =
     (example_queue, Inr ())"
  by (simp add: schedule_event_jobs_def schedule_daily_counter_char schedule_event_reminders_def
      example_event_def REMINDER_OFFSETS_def cal_defs dt_add_def dt_sub_def Let_def
      run_once_def remove_existing_jobs_filter reminder_job_def daily_job_def
      reminder_job_name_def daily_job_name_def total_seconds_int_def str_int_def
      nat_digits.simps digit_char_def example_queue_def queue_time_def float_delay_900
      float_delay_1200)

lemma py_int_7: "py_int ''7'' = Some 7"
  by (simp add: py_int_def strip_def is_space_def digit_val_def)


lemma load_example_store: "load_all example_store STORAGE_PATH = Inr [(''7'', [example_event])]"
  by (simp add: load_all_def store_read_def example_store_def events_of_items_def
      from_dict_to_dict example_event_valid)






lemma owner_events_skip:
  "py_int k = None \<Longrightarrow> owner_events (pre @ (k, es) # post) = owner_events (pre @ post)"
  by (simp add: owner_events_def)





section \<open>Claims about timer derivation\<close>




text \<open>
  Claim C6 (as amended). The daily countdown first fires at the next 09:00 strictly after
  \<open>now\<close>: today's 09:00 when \<open>now\<close> is strictly before 09:00, otherwise tomorrow's; no
  09:00 lies strictly between \<open>now\<close> and that firing. The timer repeats every day. The
  clock is assumed not to read the last representable day.
\<close>

theorem daily_first_run_next_0900:
  assumes "0 \<le> now" and "now < (MAXORDINAL - 1) * US_PER_DAY"
  shows "\<exists>first_run.
           schedule_daily_counter jq u e now =
             (remove_existing_jobs jq (daily_job_name u e) @ [daily_job u e first_run], Inr ()) \<and>
           first_run = (if time_of now < DAILY_REMINDER_TIME
                        then combine (date_of now) DAILY_REMINDER_TIME
                        else combine (date_of now + 1) DAILY_REMINDER_TIME) \<and>
           now < first_run \<and> time_of first_run = DAILY_REMINDER_TIME \<and>
           (\<forall>t. now < t \<and> time_of t = DAILY_REMINDER_TIME \<longrightarrow> first_run \<le> t)"
proof (cases "time_of now < DAILY_REMINDER_TIME")
  case True
  then have gt: "combine (date_of now) DAILY_REMINDER_TIME > now"
    by (simp add: today_target_gt_iff)
  have "schedule_daily_counter jq u e now =
      (remove_existing_jobs jq (daily_job_name u e)
         @ [daily_job u e (combine (date_of now) DAILY_REMINDER_TIME)], Inr ())"
    using gt by (simp add: schedule_daily_counter_char remove_existing_jobs_filter)
  moreover have "time_of (combine (date_of now) DAILY_REMINDER_TIME) = DAILY_REMINDER_TIME"
    using daily_time_range by (simp add: time_of_combine)
  moreover have "\<forall>t. now < t \<and> time_of t = DAILY_REMINDER_TIME \<longrightarrow>
      combine (date_of now) DAILY_REMINDER_TIME \<le> t"
    using next_target_least [of now] True by auto
  ultimately show ?thesis using True gt by simp
next
  case False
  then have ngt: "\<not> combine (date_of now) DAILY_REMINDER_TIME > now"
    by (simp add: today_target_gt_iff)
  define A where "A = (now div US_PER_DAY) * US_PER_DAY"
  have c0: "combine (date_of now) DAILY_REMINDER_TIME = A + DAILY_REMINDER_TIME"
    unfolding A_def combine_def date_of_def by simp
  have "0 \<le> now div US_PER_DAY" using assms(1) by (simp add: US_PER_DAY_def pos_imp_zdiv_nonneg_iff)
  then have A0: "0 \<le> A" unfolding A_def by (simp add: US_PER_DAY_def)
  have "now div US_PER_DAY < MAXORDINAL - 1"
    using assms(2) by (simp add: US_PER_DAY_def div_less_iff_less_mult)
  then have "now div US_PER_DAY + 1 \<le> MAXORDINAL - 1" by simp
  then have "(now div US_PER_DAY + 1) * US_PER_DAY \<le> (MAXORDINAL - 1) * US_PER_DAY"
    by (simp add: US_PER_DAY_def)
  then have A1: "A + US_PER_DAY \<le> (MAXORDINAL - 1) * US_PER_DAY"
    unfolding A_def by (simp add: algebra_simps)
  have "valid_datetime (A + DAILY_REMINDER_TIME + td_days 1)"
    using A0 A1 daily_time_range unfolding valid_datetime_def td_days_def
    by (simp add: algebra_simps US_PER_DAY_def)
  then have add: "dt_add (combine (date_of now) DAILY_REMINDER_TIME) (td_days 1)
      = Inr (combine (date_of now + 1) DAILY_REMINDER_TIME)"
    unfolding c0 [symmetric] by (simp add: dt_add_def combine_next_day)
  have "schedule_daily_counter jq u e now =
      (remove_existing_jobs jq (daily_job_name u e)
         @ [daily_job u e (combine (date_of now + 1) DAILY_REMINDER_TIME)], Inr ())"
    using ngt add by (simp add: schedule_daily_counter_char remove_existing_jobs_filter)
  moreover have "time_of (combine (date_of now + 1) DAILY_REMINDER_TIME) = DAILY_REMINDER_TIME"
    using daily_time_range by (simp add: time_of_combine)
  moreover have "\<forall>t. now < t \<and> time_of t = DAILY_REMINDER_TIME \<longrightarrow>
      combine (date_of now + 1) DAILY_REMINDER_TIME \<le> t"
    using next_target_least [of now] False by auto
  moreover have "now < combine (date_of now + 1) DAILY_REMINDER_TIME"
  proof -
    have "now = A + time_of now" unfolding time_of_def A_def by simp
    moreover have "time_of now < US_PER_DAY" unfolding time_of_def by (simp add: US_PER_DAY_def)
    moreover have "combine (date_of now + 1) DAILY_REMINDER_TIME = A + US_PER_DAY + DAILY_REMINDER_TIME"
      unfolding A_def combine_def date_of_def by (simp add: algebra_simps)
    ultimately show ?thesis using daily_time_range by linarith
  qed
  ultimately show ?thesis using False by simp
qed

text \<open>
  The example of the specification: scheduled at 2024-12-01 12:00, the countdown first
  fires at 2024-12-02 09:00.
\<close>

theorem daily_first_run_next_0900_witness:
  "0 \<le> combine (ymd2ord 2024 12 1) (time_hm 12 0) \<and>
   combine (ymd2ord 2024 12 1) (time_hm 12 0) < (MAXORDINAL - 1) * US_PER_DAY \<and>
   schedule_daily_counter [] 7 example_event (combine (ymd2ord 2024 12 1) (time_hm 12 0)) =
     ([daily_job 7 example_event (combine (ymd2ord 2024 12 2) (time_hm 9 0))], Inr ())"
  using daily_first_run_next_0900 [of "combine (ymd2ord 2024 12 1) (time_hm 12 0)" "[]" 7 example_event]
  by (simp add: cal_defs remove_existing_jobs_filter)

text \<open>
  At exactly 09:00:00 the comparison \<^verbatim>\<open>today_target > now\<close> is false, so the first firing is
  tomorrow's 09:00 and not the occurrence at \<open>now\<close> itself.
\<close>

theorem daily_first_run_at_0900_counterexample:
  "time_of (combine (ymd2ord 2024 12 1) (time_hm 9 0)) \<le> DAILY_REMINDER_TIME \<and>
   schedule_daily_counter [] 7 example_event (combine (ymd2ord 2024 12 1) (time_hm 9 0)) =
     ([daily_job 7 example_event (combine (ymd2ord 2024 12 2) (time_hm 9 0))], Inr ()) \<and>
   combine (ymd2ord 2024 12 2) (time_hm 9 0) \<noteq> combine (ymd2ord 2024 12 1) (time_hm 9 0)"
  by (simp add: schedule_daily_counter_char cal_defs dt_add_def)

text \<open>
  Claim C5. Timer derivation is idempotent. When \<^verbatim>\<open>schedule_event_jobs\<close> succeeds, running it
  again at the same \<open>now\<close> on the resulting queue returns that very queue, hence the same
  set of timer names. The names are \<^term>\<open>daily_job_name\<close>, which reads only the owner and the
  event's id, and \<^term>\<open>reminder_job_name\<close>, which reads the owner, the event's id and the
  offset. The names in the queue afterwards are the earlier ones together with the derived
  ones; every derived name has exactly one live timer, because registering under a name
  first removes the timers of that name; and a queue with at most one timer per name stays
  so.
\<close>

theorem derivation_idempotent:
  assumes "schedule_event_jobs jq u e now = (jq1, Inr ())"
  shows "schedule_event_jobs jq1 u e now = (jq1, Inr ()) \<and>
         set (map job_name jq1) = set (map job_name jq) \<union> set (event_timer_names u e now) \<and>
         (\<forall>name \<in> set (event_timer_names u e now). length (get_jobs_by_name jq1 name) = 1) \<and>
         (distinct (map job_name jq) \<longrightarrow> distinct (map job_name jq1))"
proof -
  obtain fr where jq1: "jq1 = filter (\<lambda>j. job_name j \<notin> set (event_timer_names u e now)) jq
                      @ event_timer_jobs u e now fr"
    using schedule_event_jobs_char [OF assms] by blast
  have names: "map job_name (event_timer_jobs u e now fr) = event_timer_names u e now"
    by (rule names_event_timer_jobs)
  have dist: "distinct (map job_name (event_timer_jobs u e now fr))"
    unfolding names by (rule distinct_event_timer_names)
  have a: "schedule_event_jobs jq1 u e now = (jq1, Inr ())"
    using assms by (rule schedule_event_jobs_again)
  have b: "set (map job_name jq1) = set (map job_name jq) \<union> set (event_timer_names u e now)"
  proof -
    have "set (map job_name jq1) =
        job_name ` {j \<in> set jq. job_name j \<notin> set (event_timer_names u e now)}
          \<union> set (map job_name (event_timer_jobs u e now fr))"
      unfolding jq1 by (simp add: image_Un)
    then show ?thesis unfolding names by auto
  qed
  have c: "\<forall>name \<in> set (event_timer_names u e now). length (get_jobs_by_name jq1 name) = 1"
  proof
    fix name assume n: "name \<in> set (event_timer_names u e now)"
    have "filter (\<lambda>j. job_name j = name)
            (filter (\<lambda>j. job_name j \<notin> set (event_timer_names u e now)) jq) = []"
      using n by (auto simp: filter_empty_conv)
    moreover have "length (filter (\<lambda>j. job_name j = name) (event_timer_jobs u e now fr)) = 1"
    proof (rule length_filter_key_distinct [OF dist])
      show "name \<in> job_name ` set (event_timer_jobs u e now fr)"
        using n names by (metis set_map)
    qed
    ultimately show "length (get_jobs_by_name jq1 name) = 1"
      unfolding jq1 get_jobs_by_name_def by simp
  qed
  have d: "distinct (map job_name jq) \<longrightarrow> distinct (map job_name jq1)"
  proof
    assume "distinct (map job_name jq)"
    then have "distinct (map job_name (filter (\<lambda>j. job_name j \<notin> set (event_timer_names u e now)) jq))"
      by (rule distinct_map_filter)
    then show "distinct (map job_name jq1)"
      unfolding jq1 using dist names by auto
  qed
  show ?thesis using a b c d by blast
qed

text \<open>
  An event at 18:00 scheduled at 17:40 the same day: the countdown and two reminders are
  registered, and a second derivation leaves the queue as it is.
\<close>

theorem derivation_idempotent_witness:
  "schedule_event_jobs [] 7 example_event (combine (ymd2ord 2024 12 31) (time_hm 17 40)) =
     ([daily_job 7 example_event (combine (ymd2ord 2025 1 1) (time_hm 9 0)),
       reminder_job 7 example_event (combine (ymd2ord 2024 12 31) (time_hm 17 40)) (td_minutes 5),
       reminder_job 7 example_event (combine (ymd2ord 2024 12 31) (time_hm 17 40)) (td_seconds 0)], Inr ()) \<and>
   schedule_event_jobs
     [daily_job 7 example_event (combine (ymd2ord 2025 1 1) (time_hm 9 0)),
      reminder_job 7 example_event (combine (ymd2ord 2024 12 31) (time_hm 17 40)) (td_minutes 5),
      reminder_job 7 example_event (combine (ymd2ord 2024 12 31) (time_hm 17 40)) (td_seconds 0)]
     7 example_event (combine (ymd2ord 2024 12 31) (time_hm 17 40)) =
     ([daily_job 7 example_event (combine (ymd2ord 2025 1 1) (time_hm 9 0)),
       reminder_job 7 example_event (combine (ymd2ord 2024 12 31) (time_hm 17 40)) (td_minutes 5),
       reminder_job 7 example_event (combine (ymd2ord 2024 12 31) (time_hm 17 40)) (td_seconds 0)], Inr ())"
proof -
  have h: "schedule_event_jobs [] 7 example_event (combine (ymd2ord 2024 12 31) (time_hm 17 40)) =
     ([daily_job 7 example_event (combine (ymd2ord 2025 1 1) (time_hm 9 0)),
       reminder_job 7 example_event (combine (ymd2ord 2024 12 31) (time_hm 17 40)) (td_minutes 5),
       reminder_job 7 example_event (combine (ymd2ord 2024 12 31) (time_hm 17 40)) (td_seconds 0)], Inr ())"
    by (simp add: schedule_event_jobs_def schedule_daily_counter_char schedule_event_reminders_def
        example_event_def REMINDER_OFFSETS_def cal_defs dt_add_def dt_sub_def Let_def
        run_once_def remove_existing_jobs_filter reminder_job_def daily_job_def
        reminder_job_name_def daily_job_name_def total_seconds_int_def str_int_def
        nat_digits.simps digit_char_def queue_time_def float_delay_900 float_delay_1200)
  show ?thesis using h derivation_idempotent [OF h] by simp
qed

section \<open>Claims about the event store\<close>

text \<open>
  Claim C10. Serialisation of an event round-trips: \<^verbatim>\<open>Event.from_dict(e.to_dict())\<close> is
  \<open>e\<close>, with id, title and chat id read back from their keys and the timestamp recovered
  exactly from its ISO text. Every \<^verbatim>\<open>datetime\<close> object lies in the representable range,
  which is the hypothesis.
\<close>

theorem from_dict_to_dict_roundtrip:
  assumes "valid_datetime (event_when e)"
  shows "from_dict (to_dict e) = Inr e \<and>
         getitem (to_dict e) ''when'' = Inr (JStr (isoformat (event_when e))) \<and>
         fromisoformat (isoformat (event_when e)) = Inr (event_when e)"
  using fromisoformat_isoformat [OF assms]
  by (simp add: from_dict_def to_dict_def getitem_def)

text \<open>The event of 2024-12-31 18:00 is written with the text \<^verbatim>\<open>2024-12-31T18:00:00\<close>.\<close>

theorem from_dict_to_dict_roundtrip_witness:
  "valid_datetime (event_when example_event) \<and>
   to_dict example_event =
     JObj [(''id'', JStr ''e1''), (''title'', JStr ''New Year''),
           (''when'', JStr ''2024-12-31T18:00:00''), (''chat_id'', JInt 42)] \<and>
   from_dict (to_dict example_event) = Inr example_event"
proof -
  have t: "to_dict example_event =
     JObj [(''id'', JStr ''e1''), (''title'', JStr ''New Year''),
           (''when'', JStr ''2024-12-31T18:00:00''), (''chat_id'', JInt 42)]"
    unfolding to_dict_def example_event_iso by (simp add: example_event_def)
  show ?thesis
    using example_event_valid t from_dict_to_dict_roundtrip [OF example_event_valid] by simp
qed

text \<open>
  Claim C7. A write that fails, or a process that stops, before the rename has completed
  leaves the store's file as it was: the file is untouched, so \<^verbatim>\<open>load_all\<close> returns what
  it returned before the write, and the same holds for \<^verbatim>\<open>add_event\<close>, which writes last.
  The temporary file is another file than the store's as long as the store's name does not
  itself end in \<^verbatim>\<open>.tmp\<close>. The rename is one step of the file system; what a power loss
  does to files that were never flushed lies outside the model.
\<close>

theorem failed_write_keeps_store:
  assumes "fault \<noteq> No_fault" and "path_suffix p \<noteq> ''.tmp''"
  shows "fst (store_write fault fs p data) p = fs p \<and>
         load_all (fst (store_write fault fs p data)) p = load_all fs p \<and>
         snd (store_write fault fs p data) = Inl OSError \<and>
         load_all (fst (add_event fault fs p user_id event)) p = load_all fs p"
  using store_write_fault [OF assms, of fs data] add_event_fault [OF assms, of fs user_id event]
  by (simp add: load_all_def store_read_def)

text \<open>
  A dump interrupted after its first character leaves that character in
  \<^verbatim>\<open>data/events.tmp\<close>, and the store still loads as before.
\<close>

theorem failed_write_keeps_store_witness:
  "Fail_dump ''{'' \<noteq> No_fault \<and> path_suffix STORAGE_PATH \<noteq> ''.tmp'' \<and>
   fst (store_write (Fail_dump ''{'')
          (Map.empty(STORAGE_PATH \<mapsto> Doc (JObj []))) STORAGE_PATH [(''7'', [example_event])])
     (with_suffix STORAGE_PATH ''.tmp'') = Some (Garbage ''{'') \<and>
   load_all (fst (store_write (Fail_dump ''{'')
          (Map.empty(STORAGE_PATH \<mapsto> Doc (JObj []))) STORAGE_PATH [(''7'', [example_event])]))
     STORAGE_PATH = Inr []"
  using failed_write_keeps_store [of "Fail_dump ''{''" STORAGE_PATH
      "Map.empty(STORAGE_PATH \<mapsto> Doc (JObj []))" "[(''7'', [example_event])]"]
  by (simp add: STORAGE_PATH_def load_all_def store_read_def store_write_def with_suffix_def Let_def)

text \<open>
  Claim C9. A call of \<^verbatim>\<open>create_event_and_schedule\<close> with a timestamp strictly in the
  future, on a store that loads, persists exactly one new event: the owner's stored
  sequence is the old one plus the new event, one longer, every other owner's sequence is
  unchanged, \<^verbatim>\<open>list_events\<close> of the owner then holds the new event and is sorted ascending
  by \<open>when\<close>, the owner's stored sequence is sorted, and a store all of whose sequences
  were sorted stays so.
\<close>

theorem create_persists_one_event:
  assumes "now < new_when" and "valid_datetime new_when"
    and "load_all (files w) store = Inr data"
  shows "\<exists>data' listed.
           load_all (files (fst (create_event_and_schedule No_fault now new_id user_id chat
                                   new_title new_when store w))) store = Inr data' \<and>
           list_events (files (fst (create_event_and_schedule No_fault now new_id user_id chat
                                   new_title new_when store w))) store user_id = Inr listed \<and>
           mset (dict_get data' (str_int user_id)) =
             mset (dict_get data (str_int user_id))
               + {#\<lparr>event_id = new_id, title = new_title, event_when = new_when, chat_id = chat\<rparr>#} \<and>
           length (dict_get data' (str_int user_id)) = length (dict_get data (str_int user_id)) + 1 \<and>
           (\<forall>k. k \<noteq> str_int user_id \<longrightarrow> dict_get data' k = dict_get data k) \<and>
           \<lparr>event_id = new_id, title = new_title, event_when = new_when, chat_id = chat\<rparr> \<in> set listed \<and>
           mset listed = mset (dict_get data' (str_int user_id)) \<and>
           sorted (map event_when listed) \<and>
           sorted (map event_when (dict_get data' (str_int user_id))) \<and>
           (stored_sorted data \<longrightarrow> stored_sorted data')"
proof -
  define event where
    "event = \<lparr>event_id = new_id, title = new_title, event_when = new_when, chat_id = chat\<rparr>"
  define key where "key = str_int user_id"
  define data' where
    "data' = AList.update key (sort_key event_when (dict_get data key @ [event])) data"
  define fs' where "fs' = files (fst (create_event_and_schedule No_fault now new_id user_id chat
                                   new_title new_when store w))"
  have rd: "store_read (files w) store = Inr data" using assms(3) by (simp add: load_all_def)
  have ev: "valid_datetime (event_when event)" using assms(2) by (simp add: event_def)
  have fs': "fs' = fst (add_event No_fault (files w) store user_id event)"
    unfolding fs'_def event_def by (rule create_files)
  have rd': "store_read fs' store = Inr data'"
    unfolding fs' data'_def key_def using add_event_ok [OF rd ev] by simp
  have dg: "dict_get data' key = sort_key event_when (dict_get data key @ [event])"
    unfolding data'_def by (simp add: dict_get_update)
  have oth: "\<forall>k. k \<noteq> key \<longrightarrow> dict_get data' k = dict_get data k"
    unfolding data'_def by (simp add: dict_get_update)
  have srt: "sorted (map event_when (dict_get data' key))"
    unfolding dg by (rule sorted_sort_key)
  have le: "list_events fs' store user_id = Inr (sort_key event_when (dict_get data' key))"
    by (simp add: list_events_def rd' key_def)
  have ms: "mset (dict_get data' key) = mset (dict_get data key) + {#event#}"
    unfolding dg by simp
  have ln: "length (dict_get data' key) = length (dict_get data key) + 1"
    unfolding dg by simp
  have mem: "event \<in> set (sort_key event_when (dict_get data' key))"
    unfolding dg by simp
  have ms2: "mset (sort_key event_when (dict_get data' key)) = mset (dict_get data' key)"
    by simp
  have srt2: "sorted (map event_when (sort_key event_when (dict_get data' key)))"
    by (rule sorted_sort_key)
  have inv: "stored_sorted data \<longrightarrow> stored_sorted data'"
    unfolding data'_def by (auto intro: stored_sorted_update sorted_sort_key)
  have la: "load_all fs' store = Inr data'" using rd' by (simp add: load_all_def)
  have "load_all fs' store = Inr data' \<and>
        list_events fs' store user_id = Inr (sort_key event_when (dict_get data' key)) \<and>
        mset (dict_get data' key) = mset (dict_get data key) + {#event#} \<and>
        length (dict_get data' key) = length (dict_get data key) + 1 \<and>
        (\<forall>k. k \<noteq> key \<longrightarrow> dict_get data' k = dict_get data k) \<and>
        event \<in> set (sort_key event_when (dict_get data' key)) \<and>
        mset (sort_key event_when (dict_get data' key)) = mset (dict_get data' key) \<and>
        sorted (map event_when (sort_key event_when (dict_get data' key))) \<and>
        sorted (map event_when (dict_get data' key)) \<and>
        (stored_sorted data \<longrightarrow> stored_sorted data')"
    using la le ms ln oth mem ms2 srt2 srt inv by blast
  then show ?thesis
    unfolding fs'_def key_def event_def by blast
qed

text \<open>
  The first event of owner 7, created on 2024-12-01 at noon in an empty store, is then the
  only event listed for that owner.
\<close>

theorem create_persists_one_event_witness:
  "combine (ymd2ord 2024 12 1) (time_hm 12 0) < event_when example_event \<and>
   valid_datetime (event_when example_event) \<and>
   load_all (files empty_world) STORAGE_PATH = Inr [] \<and>
   list_events
     (files (fst (create_event_and_schedule No_fault (combine (ymd2ord 2024 12 1) (time_hm 12 0))
                    ''e1'' 7 42 ''New Year'' (event_when example_event) STORAGE_PATH empty_world)))
     STORAGE_PATH 7 = Inr [example_event]"
proof -
  have h1: "combine (ymd2ord 2024 12 1) (time_hm 12 0) < event_when example_event"
    by (simp add: example_event_def cal_defs)
  have h3: "load_all (files empty_world) STORAGE_PATH = Inr []" by (rule load_all_empty_world)
  obtain data' listed where
    l: "list_events
     (files (fst (create_event_and_schedule No_fault (combine (ymd2ord 2024 12 1) (time_hm 12 0))
                    ''e1'' 7 42 ''New Year'' (event_when example_event) STORAGE_PATH empty_world)))
     STORAGE_PATH 7 = Inr listed"
    and m1: "mset (dict_get data' (str_int 7)) = mset (dict_get [] (str_int 7)) + {#example_event#}"
    and m2: "mset listed = mset (dict_get data' (str_int 7))"
    using create_persists_one_event [OF h1 example_event_valid h3, of "''e1''" 7 42 "''New Year''"]
    unfolding example_event_fields by blast
  have "mset listed = {#example_event#}" using m1 m2 by (simp add: dict_get_def)
  then have "listed = [example_event]" by simp
  then show ?thesis using h1 example_event_valid h3 l by simp
qed

text \<open>
  Claim C1 (as amended). \<^verbatim>\<open>create_event_and_schedule\<close> does not check its timestamp. For a
  timestamp at or before \<open>now\<close> it registers no timer, and on a store that loads it still
  appends the event and returns it. The rejection is made by its two callers,
  \<^verbatim>\<open>add_event_command\<close> and \<^verbatim>\<open>add_event_date\<close>, which answer that the date must lie in the
  future and change neither store nor timers.
\<close>

theorem non_future_rejected_by_callers:
  assumes "new_when \<le> now"
  shows "(title_raw \<noteq> [] \<longrightarrow>
            add_event_command fault now new_id user_id chat title_raw (Some new_when) store w
              = (w, Inr Reply_not_future)) \<and>
         add_event_date fault now new_id user_id chat new_title (Some new_when) store w
           = (w, Inr (Reply_not_future, DATE)) \<and>
         queue (fst (create_event_and_schedule fault now new_id user_id chat new_title new_when
                       store w)) = queue w \<and>
         (valid_datetime new_when \<and> load_all (files w) store = Inr data \<longrightarrow>
            snd (create_event_and_schedule No_fault now new_id user_id chat new_title new_when
                   store w)
              = Inr \<lparr>event_id = new_id, title = new_title, event_when = new_when, chat_id = chat\<rparr> \<and>
            load_all (files (fst (create_event_and_schedule No_fault now new_id user_id chat
                                    new_title new_when store w))) store
              = Inr (AList.update (str_int user_id)
                       (sort_key event_when
                          (dict_get data (str_int user_id)
                             @ [\<lparr>event_id = new_id, title = new_title, event_when = new_when,
                                  chat_id = chat\<rparr>])) data))"
proof -
  define event where
    "event = \<lparr>event_id = new_id, title = new_title, event_when = new_when, chat_id = chat\<rparr>"
  have a: "title_raw \<noteq> [] \<longrightarrow>
            add_event_command fault now new_id user_id chat title_raw (Some new_when) store w
              = (w, Inr Reply_not_future)"
    using assms by (simp add: add_event_command_def)
  have b: "add_event_date fault now new_id user_id chat new_title (Some new_when) store w
           = (w, Inr (Reply_not_future, DATE))"
    using assms by (simp add: add_event_date_def)
  have c: "queue (fst (create_event_and_schedule fault now new_id user_id chat new_title new_when
                       store w)) = queue w"
    by (simp add: create_past [OF assms] split: prod.splits sum.splits)
  have d: "valid_datetime new_when \<and> load_all (files w) store = Inr data \<longrightarrow>
            snd (create_event_and_schedule No_fault now new_id user_id chat new_title new_when
                   store w) = Inr event \<and>
            load_all (files (fst (create_event_and_schedule No_fault now new_id user_id chat
                                    new_title new_when store w))) store
              = Inr (AList.update (str_int user_id)
                       (sort_key event_when (dict_get data (str_int user_id) @ [event])) data)"
  proof (intro impI, elim conjE)
    assume v: "valid_datetime new_when" and l: "load_all (files w) store = Inr data"
    have rd: "store_read (files w) store = Inr data" using l by (simp add: load_all_def)
    have ev: "valid_datetime (event_when event)" using v by (simp add: event_def)
    have ok: "store_read (fst (add_event No_fault (files w) store user_id event)) store =
           Inr (AList.update (str_int user_id)
                  (sort_key event_when (dict_get data (str_int user_id) @ [event])) data) \<and>
         snd (add_event No_fault (files w) store user_id event) = Inr ()"
      by (rule add_event_ok [OF rd ev])
    obtain fs r where ae: "add_event No_fault (files w) store user_id event = (fs, r)"
      by (cases "add_event No_fault (files w) store user_id event")
    show "snd (create_event_and_schedule No_fault now new_id user_id chat new_title new_when
                   store w) = Inr event \<and>
            load_all (files (fst (create_event_and_schedule No_fault now new_id user_id chat
                                    new_title new_when store w))) store
              = Inr (AList.update (str_int user_id)
                       (sort_key event_when (dict_get data (str_int user_id) @ [event])) data)"
      using ok unfolding create_past [OF assms] event_def [symmetric] ae
      by (simp add: load_all_def)
  qed
  show ?thesis using a b c d unfolding event_def by blast
qed

text \<open>
  An event of 2024-12-31 18:00 submitted on 2025-01-01: the command handler rejects it and
  leaves the empty state as it is.
\<close>

theorem non_future_rejected_by_callers_witness:
  "event_when example_event \<le> combine (ymd2ord 2025 1 1) (time_hm 9 0) \<and>
   ''New Year'' \<noteq> [] \<and>
   add_event_command No_fault (combine (ymd2ord 2025 1 1) (time_hm 9 0)) ''e1'' 7 42 ''New Year''
       (Some (event_when example_event)) STORAGE_PATH empty_world
     = (empty_world, Inr Reply_not_future) \<and>
   valid_datetime (event_when example_event) \<and>
   load_all (files empty_world) STORAGE_PATH = Inr [] \<and>
   snd (create_event_and_schedule No_fault (combine (ymd2ord 2025 1 1) (time_hm 9 0)) ''e1'' 7 42
          ''New Year'' (event_when example_event) STORAGE_PATH empty_world) = Inr example_event"
  using non_future_rejected_by_callers [OF example_past, of "''New Year''" No_fault "''e1''" 7 42
      STORAGE_PATH empty_world "''New Year''" "[]"]
    example_past example_event_valid load_all_empty_world [of STORAGE_PATH]
  by (simp add: example_event_fields)

text \<open>
  Called directly with that past timestamp, \<^verbatim>\<open>create_event_and_schedule\<close> returns the event,
  and the store, empty before, holds it afterwards.
\<close>

theorem create_in_the_past_counterexample:
  "event_when example_event \<le> combine (ymd2ord 2025 1 1) (time_hm 9 0) \<and>
   load_all (files empty_world) STORAGE_PATH = Inr [] \<and>
   snd (create_event_and_schedule No_fault (combine (ymd2ord 2025 1 1) (time_hm 9 0)) ''e1'' 7 42
          ''New Year'' (event_when example_event) STORAGE_PATH empty_world) = Inr example_event \<and>
   load_all (files (fst (create_event_and_schedule No_fault (combine (ymd2ord 2025 1 1) (time_hm 9 0))
                           ''e1'' 7 42 ''New Year'' (event_when example_event) STORAGE_PATH
                           empty_world))) STORAGE_PATH
     = Inr [(''7'', [example_event])]"
proof -
  have rd: "store_read (files empty_world) STORAGE_PATH = Inr []"
    using load_all_empty_world [of STORAGE_PATH] by (simp add: load_all_def)
  have ok: "store_read (fst (add_event No_fault (files empty_world) STORAGE_PATH 7 example_event))
              STORAGE_PATH = Inr [(''7'', [example_event])] \<and>
            snd (add_event No_fault (files empty_world) STORAGE_PATH 7 example_event) = Inr ()"
    using add_event_ok [OF rd example_event_valid, of 7]
    by (simp add: str_int_7 dict_get_def)
  obtain fs r where ae: "add_event No_fault (files empty_world) STORAGE_PATH 7 example_event = (fs, r)"
    by (cases "add_event No_fault (files empty_world) STORAGE_PATH 7 example_event")
  show ?thesis
    using ok example_past load_all_empty_world [of STORAGE_PATH]
    unfolding create_past [OF example_past] example_event_fields ae
    by (simp add: load_all_def)
qed

section \<open>Claims about the countdown callback and recovery\<close>

text \<open>
  Claim C2 (as amended). A firing of the daily countdown cancels its timer and sends
  nothing exactly when the event's moment is at or before \<open>now\<close>, which is the case whenever
  the number of days left is negative. Otherwise it sends the number of days left, which is
  then zero or positive, and keeps the timer.
\<close>

theorem daily_countdown_cancels_when_elapsed:
  "(event_when (job_event j) \<le> now \<longrightarrow>
      daily_countdown j now w = w\<lparr>queue := remove1 j (queue w)\<rparr>) \<and>
   (now < event_when (job_event j) \<longrightarrow>
      0 \<le> date_of (event_when (job_event j)) - date_of now \<and>
      daily_countdown j now w =
        w\<lparr>sent := sent w @ [\<lparr>msg_chat_id = chat_id (job_event j),
                               msg_text = Days_left (title (job_event j))
                                 (date_of (event_when (job_event j)) - date_of now)\<rparr>]\<rparr>) \<and>
   (date_of (event_when (job_event j)) - date_of now < 0 \<longrightarrow> event_when (job_event j) \<le> now)"
proof -
  have "now < event_when (job_event j) \<longrightarrow> 0 \<le> date_of (event_when (job_event j)) - date_of now"
    using date_of_mono [of now "event_when (job_event j)"] by simp
  moreover have "date_of (event_when (job_event j)) - date_of now < 0 \<longrightarrow> event_when (job_event j) \<le> now"
  proof (intro impI, rule ccontr)
    assume neg: "date_of (event_when (job_event j)) - date_of now < 0"
      and "\<not> event_when (job_event j) \<le> now"
    then have "now \<le> event_when (job_event j)" by simp
    then have "date_of now \<le> date_of (event_when (job_event j))" by (rule date_of_mono)
    then show False using neg by simp
  qed
  ultimately show ?thesis
    by (simp add: daily_countdown_def Let_def)
qed

text \<open>
  For the event of 2024-12-31 18:00: the firing of 2025-01-01 09:00 removes the timer, the
  firing of 2024-12-02 09:00 reports 29 days.
\<close>

theorem daily_countdown_cancels_when_elapsed_witness:
  "event_when (job_event (daily_job 7 example_event (combine (ymd2ord 2024 12 2) (time_hm 9 0))))
     \<le> combine (ymd2ord 2025 1 1) (time_hm 9 0) \<and>
   daily_countdown (daily_job 7 example_event (combine (ymd2ord 2024 12 2) (time_hm 9 0)))
     (combine (ymd2ord 2025 1 1) (time_hm 9 0))
     (empty_world\<lparr>queue := [daily_job 7 example_event (combine (ymd2ord 2024 12 2) (time_hm 9 0))]\<rparr>)
     = empty_world \<and>
   combine (ymd2ord 2024 12 2) (time_hm 9 0)
     < event_when (job_event (daily_job 7 example_event (combine (ymd2ord 2024 12 2) (time_hm 9 0)))) \<and>
   daily_countdown (daily_job 7 example_event (combine (ymd2ord 2024 12 2) (time_hm 9 0)))
     (combine (ymd2ord 2024 12 2) (time_hm 9 0)) empty_world
     = empty_world\<lparr>sent := [\<lparr>msg_chat_id = 42, msg_text = Days_left ''New Year'' 29\<rparr>]\<rparr>"
  using daily_countdown_cancels_when_elapsed
      [of "daily_job 7 example_event (combine (ymd2ord 2024 12 2) (time_hm 9 0))"
          "combine (ymd2ord 2025 1 1) (time_hm 9 0)"
          "empty_world\<lparr>queue := [daily_job 7 example_event (combine (ymd2ord 2024 12 2) (time_hm 9 0))]\<rparr>"]
    daily_countdown_cancels_when_elapsed
      [of "daily_job 7 example_event (combine (ymd2ord 2024 12 2) (time_hm 9 0))"
          "combine (ymd2ord 2024 12 2) (time_hm 9 0)" empty_world]
  by (simp add: daily_job_def example_event_def empty_world_def cal_defs)

text \<open>
  The firing at 09:00 on the event's own day finds the event still ahead: it reports zero
  days and the timer stays in the queue.
\<close>

theorem daily_countdown_same_day_counterexample:
  "date_of (event_when example_event) - date_of (combine (ymd2ord 2024 12 31) (time_hm 9 0)) = 0 \<and>
   daily_countdown (daily_job 7 example_event (combine (ymd2ord 2024 12 2) (time_hm 9 0)))
     (combine (ymd2ord 2024 12 31) (time_hm 9 0))
     (empty_world\<lparr>queue := [daily_job 7 example_event (combine (ymd2ord 2024 12 2) (time_hm 9 0))]\<rparr>)
     = empty_world\<lparr>queue := [daily_job 7 example_event (combine (ymd2ord 2024 12 2) (time_hm 9 0))],
                    sent := [\<lparr>msg_chat_id = 42, msg_text = Days_left ''New Year'' 0\<rparr>]\<rparr>"
  by (simp add: daily_countdown_def daily_job_def example_event_def empty_world_def cal_defs Let_def)

text \<open>
  Claim C4. When the store loads, recovery is the scheduling of every stored event of every
  owner whose key is an integer, in stored order, by \<^verbatim>\<open>schedule_event_jobs\<close>, the call the
  creation path makes: queue and outcome are those of \<^term>\<open>schedule_each\<close>. When it succeeds,
  every timer name derived for a stored event is in the queue, and every timer that was
  not in the queue before belongs to an event strictly after \<open>now\<close>, so events at or before
  \<open>now\<close> are left unscheduled.
\<close>

theorem recovery_matches_creation_path:
  assumes "load_all (files w) store = Inr data"
  shows "reschedule_all_events w store now =
           (w\<lparr>queue := fst (schedule_each (owner_events data) (queue w) now)\<rparr>,
            snd (schedule_each (owner_events data) (queue w) now)) \<and>
         (snd (reschedule_all_events w store now) = Inr () \<longrightarrow>
            (\<forall>(u, e) \<in> set (owner_events data).
               set (event_timer_names u e now)
                 \<subseteq> set (map job_name (queue (fst (reschedule_all_events w store now))))) \<and>
            (\<forall>j \<in> set (queue (fst (reschedule_all_events w store now))).
               j \<in> set (queue w) \<or> now < event_when (job_event j)))"
proof -
  obtain jq' r where se: "schedule_each (owner_events data) (queue w) now = (jq', r)"
    by (cases "schedule_each (owner_events data) (queue w) now")
  have eq: "reschedule_all_events w store now = (w\<lparr>queue := jq'\<rparr>, r)"
    using assms se by (simp add: reschedule_all_events_def reschedule_owners_each)
  have "r = Inr () \<longrightarrow>
            (\<forall>(u, e) \<in> set (owner_events data).
               set (event_timer_names u e now) \<subseteq> set (map job_name jq')) \<and>
            (\<forall>j \<in> set jq'. j \<in> set (queue w) \<or> now < event_when (job_event j))"
  proof
    assume "r = Inr ()"
    then have ok: "schedule_each (owner_events data) (queue w) now = (jq', Inr ())"
      using se by simp
    show "(\<forall>(u, e) \<in> set (owner_events data).
               set (event_timer_names u e now) \<subseteq> set (map job_name jq')) \<and>
            (\<forall>j \<in> set jq'. j \<in> set (queue w) \<or> now < event_when (job_event j))"
      using schedule_each_names [OF ok] schedule_each_future [OF ok] by blast
  qed
  then show ?thesis unfolding eq se by simp
qed

text \<open>
  A store holding the event of 2024-12-31 18:00 for owner 7, recovered at 17:40 with no
  timers in memory: the queue is the one \<^verbatim>\<open>schedule_event_jobs\<close> builds for that event, which
  is also the queue after creating the event at 17:40.
\<close>

theorem recovery_matches_creation_path_witness:
  "load_all (files (empty_world\<lparr>files := example_store\<rparr>)) STORAGE_PATH
     = Inr [(''7'', [example_event])] \<and>
   owner_events [(''7'', [example_event])] = [(7, example_event)] \<and>
   reschedule_all_events (empty_world\<lparr>files := example_store\<rparr>) STORAGE_PATH
       (combine (ymd2ord 2024 12 31) (time_hm 17 40))
     = (empty_world\<lparr>files := example_store,
          queue := fst (schedule_event_jobs [] 7 example_event
                          (combine (ymd2ord 2024 12 31) (time_hm 17 40)))\<rparr>, Inr ()) \<and>
   queue (fst (create_event_and_schedule No_fault (combine (ymd2ord 2024 12 31) (time_hm 17 40))
                 ''e1'' 7 42 ''New Year'' (event_when example_event) STORAGE_PATH empty_world))
     = fst (schedule_event_jobs [] 7 example_event (combine (ymd2ord 2024 12 31) (time_hm 17 40)))"
proof -
  have l: "load_all (files (empty_world\<lparr>files := example_store\<rparr>)) STORAGE_PATH
     = Inr [(''7'', [example_event])]"
    using load_example_store by simp
  have oe: "owner_events [(''7'', [example_event])] = [(7, example_event)]"
    by (simp add: owner_events_def py_int_7)
  have c: "queue (fst (create_event_and_schedule No_fault (combine (ymd2ord 2024 12 31) (time_hm 17 40))
                 ''e1'' 7 42 ''New Year'' (event_when example_event) STORAGE_PATH empty_world))
     = example_queue"
  proof -
    have rd: "store_read (files empty_world) STORAGE_PATH = Inr []"
      using load_all_empty_world [of STORAGE_PATH] by (simp add: load_all_def)
    have ok: "snd (add_event No_fault (files empty_world) STORAGE_PATH 7 example_event) = Inr ()"
      using add_event_ok [OF rd example_event_valid, of 7] by simp
    obtain fs where ae: "add_event No_fault (files empty_world) STORAGE_PATH 7 example_event = (fs, Inr ())"
      using ok by (cases "add_event No_fault (files empty_world) STORAGE_PATH 7 example_event") simp
    have q: "queue empty_world = []" by (simp add: empty_world_def)
    show ?thesis
      unfolding create_event_and_schedule_def Let_def example_event_fields ae q
      by (simp add: example_schedule)
  qed
  show ?thesis
    using l oe c
      recovery_matches_creation_path [OF l, of "combine (ymd2ord 2024 12 31) (time_hm 17 40)"]
    by (simp add: example_schedule empty_world_def)
qed




end
